theory Spec2Isabelle
  imports Complex_Main "HOL-Library.Word" "HOL-Library.Log_Nat"
begin

section \<open>Images\<close>

text \<open>
  The module \<^verbatim>\<open>manga_manager/img_operations/images_operations.py\<close> works on PIL
  images. An image has a size and a grid of 8-bit pixels, either one channel (mode
  \<^verbatim>\<open>L\<close>) or three (mode \<^verbatim>\<open>RGB\<close>); the repository converts what it loads to
  \<^verbatim>\<open>RGB\<close>, and \<^verbatim>\<open>convert('L')\<close> produces mode \<^verbatim>\<open>L\<close>. The grid is a list of
  rows, top to bottom, each row a list of pixels, left to right.

  Every operation below reads the grid through \<open>pixel_at\<close> at coordinates inside the
  declared size, so the statements need no separate well-formedness hypothesis: a
  PIL image always has \<open>height\<close> rows of \<open>width\<close> pixels, and there the reads are the
  plain list lookups.

  The mean intensity of an image and the aspect ratio that \<^verbatim>\<open>is_not_manga\<close> compares
  with 1.5 are kept as exact rationals (\<open>rat\<close>). The arithmetic that fits a page to the
  screen is done in double precision, as in the source; see the section on fitting.
\<close>

type_synonym rgb = "8 word \<times> 8 word \<times> 8 word"

datatype pixels = L "8 word list list" | RGB "rgb list list"

record image =
  width :: nat
  height :: nat
  pixels :: pixels

datatype error = ZeroDivisionError | ValueError

definition pixel_at :: "'a \<Rightarrow> 'a list list \<Rightarrow> nat \<Rightarrow> nat \<Rightarrow> 'a" where
  \<comment> \<open>the pixel in column \<open>x\<close> of row \<open>y\<close>; PIL reads outside an image as zero\<close>
  "pixel_at d rows x y =
     (if y < length rows \<and> x < length (rows ! y) then rows ! y ! x else d)"

definition grid :: "nat \<Rightarrow> nat \<Rightarrow> (nat \<Rightarrow> nat \<Rightarrow> 'a) \<Rightarrow> 'a list list" where
  \<comment> \<open>the \<open>h\<close> rows of \<open>w\<close> pixels whose pixel at \<open>(x, y)\<close> is \<open>f x y\<close>\<close>
  "grid w h f = map (\<lambda>y. map (\<lambda>x. f x y) [0..<w]) [0..<h]"

definition rgb2l :: "rgb \<Rightarrow> 8 word" where
  \<comment> \<open>PIL's ITU-R 601-2 luma transform, in its 16-bit fixed-point form\<close>
  "rgb2l p = (case p of (r, g, b) \<Rightarrow>
     word_of_nat ((unat r * 19595 + unat g * 38470 + unat b * 7471 + 32768) div 65536))"

definition gray_at :: "image \<Rightarrow> nat \<Rightarrow> nat \<Rightarrow> 8 word" where
  \<comment> \<open>the intensity that \<^verbatim>\<open>convert('L')\<close> gives the pixel at \<open>(x, y)\<close>\<close>
  "gray_at img x y = (case pixels img of
       L rows \<Rightarrow> pixel_at 0 rows x y
     | RGB rows \<Rightarrow> rgb2l (pixel_at (0, 0, 0) rows x y))"

definition rgb_at :: "image \<Rightarrow> nat \<Rightarrow> nat \<Rightarrow> rgb" where
  \<comment> \<open>the colour that conversion to \<^verbatim>\<open>RGB\<close> gives the pixel at \<open>(x, y)\<close>\<close>
  "rgb_at img x y = (case pixels img of
       L rows \<Rightarrow> (let v = pixel_at 0 rows x y in (v, v, v))
     | RGB rows \<Rightarrow> pixel_at (0, 0, 0) rows x y)"

definition convert_L :: "image \<Rightarrow> image" where
  "convert_L img =
     \<lparr>width = width img, height = height img,
      pixels = L (grid (width img) (height img) (gray_at img))\<rparr>"

definition getdata_L :: "image \<Rightarrow> 8 word list" where
  \<comment> \<open>\<^verbatim>\<open>getdata()\<close> of a grayscale image: its pixels, row by row\<close>
  "getdata_L img = concat (grid (width img) (height img) (gray_at img))"

definition crop :: "image \<Rightarrow> nat \<times> nat \<times> nat \<times> nat \<Rightarrow> image" where
  \<comment> \<open>\<^verbatim>\<open>image.crop((left, upper, right, lower))\<close>, which keeps the mode\<close>
  "crop img box = (case box of (x0, y0, x1, y1) \<Rightarrow>
     \<lparr>width = x1 - x0, height = y1 - y0,
      pixels = (case pixels img of
          L rows \<Rightarrow> L (grid (x1 - x0) (y1 - y0) (\<lambda>x y. pixel_at 0 rows (x0 + x) (y0 + y)))
        | RGB rows \<Rightarrow>
            RGB (grid (x1 - x0) (y1 - y0) (\<lambda>x y. pixel_at (0, 0, 0) rows (x0 + x) (y0 + y))))\<rparr>)"

definition new_image :: "nat \<Rightarrow> nat \<Rightarrow> rgb \<Rightarrow> image" where
  \<comment> \<open>\<^verbatim>\<open>Image.new(mode="RGB", size=(w, h), color=c)\<close>\<close>
  "new_image w h c = \<lparr>width = w, height = h, pixels = RGB (grid w h (\<lambda>x y. c))\<rparr>"

definition paste :: "image \<Rightarrow> image \<Rightarrow> int \<times> int \<Rightarrow> image" where
  \<comment> \<open>\<^verbatim>\<open>canvas.paste(src, (px, py))\<close> on an \<^verbatim>\<open>RGB\<close> canvas: the source is converted to
      \<^verbatim>\<open>RGB\<close> and copied with its upper left corner at \<open>(px, py)\<close>, clipped to the canvas\<close>
  "paste canvas src pos = (case pos of (px, py) \<Rightarrow>
     \<lparr>width = width canvas, height = height canvas,
      pixels = RGB (grid (width canvas) (height canvas)
        (\<lambda>x y. if px \<le> int x \<and> int x < px + int (width src) \<and>
                  py \<le> int y \<and> int y < py + int (height src)
               then rgb_at src (nat (int x - px)) (nat (int y - py))
               else rgb_at canvas x y))\<rparr>)"

section \<open>Brightness and background\<close>

definition average_brightness :: "image \<Rightarrow> error + rat" where
  \<comment> \<open>\<^verbatim>\<open>ImageStat.Stat(image.convert('L')).mean[0]\<close>: the sum of the intensities over
      their number; the division raises on an image without pixels\<close>
  "average_brightness img =
     (let grayscale_image = convert_L img;
          d = getdata_L grayscale_image
      in if length d = 0 then Inl ZeroDivisionError
         else Inr (of_nat (sum_list (map unat d)) / of_nat (length d)))"

definition BLACK :: rgb where "BLACK = (0, 0, 0)"

definition WHITE :: rgb where "WHITE = (255, 255, 255)"

definition best_background_for_image :: "image \<Rightarrow> error + rgb" where
  "best_background_for_image img =
     (case average_brightness img of
        Inl e \<Rightarrow> Inl e
      | Inr avg_brightness \<Rightarrow>
          (let contrast_with_white = \<bar>255 - avg_brightness\<bar>;
               contrast_with_black = avg_brightness
           in if contrast_with_white > contrast_with_black then Inr BLACK else Inr WHITE))"

section \<open>Page classification\<close>

definition is_colored :: "image \<Rightarrow> bool" where
  \<comment> \<open>the local \<^verbatim>\<open>is_colored\<close> of \<^verbatim>\<open>is_not_manga\<close>: a two-dimensional array (mode
      \<^verbatim>\<open>L\<close>) is not coloured, a three-dimensional one is unless its three channels agree
      at every pixel\<close>
  "is_colored img = (case pixels img of
       L rows \<Rightarrow> False
     | RGB rows \<Rightarrow>
         \<not> (list_all (\<lambda>y. list_all (\<lambda>x. case pixel_at (0, 0, 0) rows x y of
                                         (r, g, b) \<Rightarrow> r = g) [0..<width img])
                      [0..<height img] \<and>
            list_all (\<lambda>y. list_all (\<lambda>x. case pixel_at (0, 0, 0) rows x y of
                                         (r, g, b) \<Rightarrow> g = b) [0..<width img])
                      [0..<height img]))"

definition is_not_manga :: "image \<Rightarrow> bool" where
  \<comment> \<open>\<^verbatim>\<open>width / height\<close> raises on height 0, and the handler returns \<^verbatim>\<open>False\<close>\<close>
  "is_not_manga img =
     (if height img = 0 then False
      else
        let aspect_ratio = (of_nat (width img) / of_nat (height img) :: rat)
        in if aspect_ratio > 3 / 2 \<and> is_colored img then True
           else if \<not> is_colored img then False
           else True)"

section \<open>Dead rows\<close>

definition detect_blank_or_dark_spaces :: "image \<Rightarrow> int \<Rightarrow> int \<Rightarrow> nat list" where
  "detect_blank_or_dark_spaces img threshold_light threshold_dark =
     (let grayscale_img = convert_L img
      in filter
           (\<lambda>y. let row = crop grayscale_img (0, y, width img, y + 1)
                in list_all (\<lambda>pixel. uint pixel > threshold_light) (getdata_L row) \<or>
                   list_all (\<lambda>pixel. uint pixel < threshold_dark) (getdata_L row))
           [0..<height img])"

section \<open>Cropping to the content\<close>

definition crop_mask :: "image \<Rightarrow> int \<Rightarrow> int \<Rightarrow> bool list list" where
  \<comment> \<open>\<^verbatim>\<open>~(blank_mask | dark_mask)\<close> over the grayscale array, indexed \<open>[y][x]\<close>\<close>
  "crop_mask img blank_threshold dark_threshold =
     (let grayscale_image = convert_L img
      in grid (width grayscale_image) (height grayscale_image)
           (\<lambda>x y. let v = uint (gray_at grayscale_image x y)
                  in \<not> (v > blank_threshold \<or> v < dark_threshold)))"

definition argwhere :: "bool list list \<Rightarrow> (nat \<times> nat) list" where
  \<comment> \<open>\<^verbatim>\<open>np.argwhere\<close>: the \<open>(y, x)\<close> indices of the true entries, in row-major order\<close>
  "argwhere m = [(y, x). y \<leftarrow> [0..<length m], x \<leftarrow> [0..<length (m ! y)], m ! y ! x]"

definition bounding_box :: "(nat \<times> nat) list \<Rightarrow> nat \<times> nat \<times> nat \<times> nat" where
  \<comment> \<open>\<^verbatim>\<open>coords.min(axis=0)\<close> and \<^verbatim>\<open>coords.max(axis=0) + 1\<close>, as the box
      \<open>(x0, y0, x1, y1)\<close> handed to \<^verbatim>\<open>crop\<close>\<close>
  "bounding_box coords =
     (let y0 = Min (set (map fst coords)); x0 = Min (set (map snd coords));
          y1 = Max (set (map fst coords)) + 1; x1 = Max (set (map snd coords)) + 1
      in (x0, y0, x1, y1))"

definition crop_image_by_blank_or_dark_space :: "image \<Rightarrow> int \<Rightarrow> int \<Rightarrow> image" where
  "crop_image_by_blank_or_dark_space img blank_threshold dark_threshold =
     (let coords = argwhere (crop_mask img blank_threshold dark_threshold)
      in if length coords > 0 then crop img (bounding_box coords) else img)"

section \<open>Fitting to the screen\<close>

text \<open>
  A Python float is an IEEE 754 double. A finite double is modelled by the rational
  number it denotes, and an operation on doubles by the exact operation followed by
  \<open>fl\<close>, the rounding to 53 significant bits with ties to even. An \<^verbatim>\<open>int\<close> operand
  becomes a double first, and the quotient of two \<^verbatim>\<open>int\<close>s is their correctly rounded
  quotient. The exponent range of doubles is not modelled: PIL keeps the sizes of an
  image below \<open>2 ^ 31\<close>, and for sizes like these every quotient and product below lies
  far inside the range of the normal doubles.
\<close>

definition round_half_even :: "rat \<Rightarrow> int" where
  \<comment> \<open>the nearest integer, the even one of the two at a tie\<close>
  "round_half_even x =
     (let n = \<lfloor>x\<rfloor>; r = x - of_int n
      in if r < 1 / 2 then n else if r > 1 / 2 then n + 1 else if even n then n else n + 1)"

definition exponent :: "rat \<Rightarrow> int" where
  \<comment> \<open>\<open>\<lfloor>log\<^sub>2 q\<rfloor>\<close> of a positive rational, from the bit lengths of its numerator and
      denominator\<close>
  "exponent q = (case quotient_of q of (a, b) \<Rightarrow>
     let d = bitlen a - bitlen b
     in if 2 powi d \<le> q then d else d - 1)"

definition fl :: "rat \<Rightarrow> rat" where
  \<comment> \<open>the double nearest to \<open>q\<close>: \<open>q\<close> rounded to a multiple of \<open>2 powi (exponent \<bar>q\<bar> - 52)\<close>\<close>
  "fl q = (if q = 0 then 0
           else let ulp = 2 powi (exponent \<bar>q\<bar> - 52)
                in sgn q * of_int (round_half_even (\<bar>q\<bar> / ulp)) * ulp)"

definition py_int :: "rat \<Rightarrow> int" where
  \<comment> \<open>Python's \<^verbatim>\<open>int()\<close> of a float truncates towards zero\<close>
  "py_int q = (if q \<ge> 0 then \<lfloor>q\<rfloor> else \<lceil>q\<rceil>)"

definition fit_size :: "nat \<Rightarrow> nat \<Rightarrow> nat \<Rightarrow> nat \<Rightarrow> int \<times> int" where
  \<comment> \<open>\<^verbatim>\<open>(new_width, new_height)\<close> as \<^verbatim>\<open>enhance_image_for_screen\<close> computes them from the
      size of the image and of the screen, both heights being non-zero\<close>
  "fit_size img_width img_height screen_width screen_height =
     (let img_aspect_ratio = fl (of_nat img_width / of_nat img_height);
          screen_aspect_ratio = fl (of_nat screen_width / of_nat screen_height)
      in if img_aspect_ratio > screen_aspect_ratio
         then (int screen_width, py_int (fl (fl (of_nat screen_width) / img_aspect_ratio)))
         else (py_int (fl (fl (of_nat screen_height) * img_aspect_ratio)),
               int screen_height))"

record fit =
  new_width :: int
  new_height :: int
  resized_img :: image
  color :: rgb
  paste_x :: int
  paste_y :: int

definition enhance_try ::
  "(image \<Rightarrow> nat \<times> nat \<Rightarrow> image) \<Rightarrow> nat \<Rightarrow> nat \<Rightarrow> image \<Rightarrow> error + fit" where
  \<comment> \<open>The body of the \<^verbatim>\<open>try\<close> block of \<^verbatim>\<open>enhance_image_for_screen\<close> up to the paste,
      returning its local variables. The two divisions raise on a height of zero.
      \<open>resize\<close> stands for \<^verbatim>\<open>img.resize(size, Image.Resampling.LANCZOS)\<close> on a size with
      positive components; PIL raises \<^verbatim>\<open>ValueError\<close> on any other size. \<open>screen_width\<close>
      and \<open>screen_height\<close> are the configured \<^verbatim>\<open>final_document_width\<close> and
      \<^verbatim>\<open>final_document_height\<close>.\<close>
  "enhance_try resize screen_width screen_height img =
     (if height img = 0 \<or> screen_height = 0 then Inl ZeroDivisionError
      else
        case fit_size (width img) (height img) screen_width screen_height of
          (nw, nh) \<Rightarrow>
            if nw < 1 \<or> nh < 1 then Inl ValueError
            else
              let resized = resize img (nat nw, nat nh)
              in case best_background_for_image resized of
                   Inl e \<Rightarrow> Inl e
                 | Inr c \<Rightarrow>
                     Inr \<lparr>new_width = nw, new_height = nh, resized_img = resized, color = c,
                          paste_x = (int screen_width - nw) div 2,
                          paste_y = (int screen_height - nh) div 2\<rparr>)"

definition enhance_image_for_screen ::
  "(image \<Rightarrow> nat \<times> nat \<Rightarrow> image) \<Rightarrow> nat \<Rightarrow> nat \<Rightarrow> image \<Rightarrow> image" where
  \<comment> \<open>on any exception the handler returns the input image\<close>
  "enhance_image_for_screen resize screen_width screen_height img =
     (case enhance_try resize screen_width screen_height img of
        Inl e \<Rightarrow> img
      | Inr f \<Rightarrow>
          paste (new_image screen_width screen_height (color f)) (resized_img f)
            (paste_x f, paste_y f))"

definition resize_nearest :: "image \<Rightarrow> nat \<times> nat \<Rightarrow> image" where
  \<comment> \<open>A concrete resampler (nearest neighbour, PIL's \<^verbatim>\<open>Resampling.NEAREST\<close>) for the
      examples: the Lanczos filter itself is outside the repository.\<close>
  "resize_nearest img sz = (case sz of (w, h) \<Rightarrow>
     \<lparr>width = w, height = h,
      pixels = (case pixels img of
          L rows \<Rightarrow>
            L (grid w h (\<lambda>x y. pixel_at 0 rows (x * width img div w) (y * height img div h)))
        | RGB rows \<Rightarrow>
            RGB (grid w h
              (\<lambda>x y. pixel_at (0, 0, 0) rows (x * width img div w) (y * height img div h))))\<rparr>)"

section \<open>Splitting a page\<close>

fun split_loop :: "nat list \<Rightarrow> int \<Rightarrow> int \<Rightarrow> (nat \<times> nat) list" where
  \<comment> \<open>The \<^verbatim>\<open>for\<close> loop of \<^verbatim>\<open>split_image_by_blank_or_dark_spaces\<close> over the consecutive
      pairs of \<^verbatim>\<open>split_positions\<close>: the row ranges \<open>(prev, cur)\<close> whose segment the loop
      appends, in the order it appends them. The height of the segment cropped to
      rows \<open>prev\<close> to \<open>cur\<close> is \<open>cur - prev\<close>.\<close>
  "split_loop (prev # cur # rest) min_gap min_segment_height =
     (if int cur - int prev > min_gap
      then if int (cur - prev) \<ge> min_segment_height
           then (prev, cur) # split_loop (cur # rest) min_gap min_segment_height
           else split_loop (cur # rest) min_gap min_segment_height
      else split_loop (cur # rest) min_gap min_segment_height)"
| "split_loop _ min_gap min_segment_height = []"

definition split_positions :: "image \<Rightarrow> int \<Rightarrow> int \<Rightarrow> nat list" where
  "split_positions img threshold_light threshold_dark =
     [0] @ detect_blank_or_dark_spaces img threshold_light threshold_dark @ [height img]"

definition split_segments :: "image \<Rightarrow> int \<Rightarrow> int \<Rightarrow> int \<Rightarrow> int \<Rightarrow> (nat \<times> nat) list" where
  \<comment> \<open>the row ranges that gap detection followed by the split loop keeps\<close>
  "split_segments img threshold_light threshold_dark min_gap min_segment_height =
     split_loop (split_positions img threshold_light threshold_dark)
       min_gap min_segment_height"

definition split_image_by_blank_or_dark_spaces ::
  "(image \<Rightarrow> nat \<times> nat \<Rightarrow> image) \<Rightarrow> nat \<Rightarrow> nat \<Rightarrow> image \<Rightarrow> int \<Rightarrow> int \<Rightarrow> int \<Rightarrow> int
     \<Rightarrow> image list" where
  \<comment> \<open>each kept range is cropped out of the page, cropped to its content with the
      default thresholds 240 and 30, and fitted to the screen\<close>
  "split_image_by_blank_or_dark_spaces resize screen_width screen_height img
       threshold_light threshold_dark min_gap min_segment_height =
     map (\<lambda>(prev, cur).
            let segment = crop img (0, prev, width img, cur);
                segment_cropped = crop_image_by_blank_or_dark_space segment 240 30
            in enhance_image_for_screen resize screen_width screen_height segment_cropped)
         (split_segments img threshold_light threshold_dark min_gap min_segment_height)"

definition split_and_crop_image ::
  "(image \<Rightarrow> nat \<times> nat \<Rightarrow> image) \<Rightarrow> nat \<Rightarrow> nat \<Rightarrow> image \<Rightarrow> int \<Rightarrow> int \<Rightarrow> image list" where
  "split_and_crop_image resize screen_width screen_height img page_num img_index =
     (if page_num \<noteq> 0 \<and> is_not_manga img
      then split_image_by_blank_or_dark_spaces resize screen_width screen_height img
             240 15 20 75
      else [enhance_image_for_screen resize screen_width screen_height
              (crop_image_by_blank_or_dark_space img 240 30)])"

section \<open>Dead rows and example pages\<close>

definition dead_row :: "image \<Rightarrow> int \<Rightarrow> int \<Rightarrow> nat \<Rightarrow> bool" where
  \<comment> \<open>row \<open>y\<close> is uniformly light or uniformly dark: the test of the detection loop\<close>
  "dead_row img lt dt y \<longleftrightarrow>
     list_all (\<lambda>x. uint (gray_at img x y) > lt) [0..<width img] \<or>
     list_all (\<lambda>x. uint (gray_at img x y) < dt) [0..<width img]"

definition scenario_page :: image where
  \<comment> \<open>an all-white 800 by 2000 page with black bands at rows 600 to 650 and 1400 to 1450\<close>
  "scenario_page =
     \<lparr>width = 800, height = 2000,
      pixels = RGB (replicate 600 (replicate 800 (255, 255, 255)) @
                    replicate 50 (replicate 800 (0, 0, 0)) @
                    replicate 750 (replicate 800 (255, 255, 255)) @
                    replicate 50 (replicate 800 (0, 0, 0)) @
                    replicate 550 (replicate 800 (255, 255, 255)))\<rparr>"

definition blank_strip :: image where
  "blank_strip = \<lparr>width = 2, height = 3, pixels = L [[250, 255], [0, 3], [241, 241]]\<rparr>"

definition gray_sum :: "image \<Rightarrow> nat" where
  \<comment> \<open>the sum of the grayscale intensities of all pixels\<close>
  "gray_sum img =
     sum_list (map (\<lambda>y. sum_list (map (\<lambda>x. unat (gray_at img x y)) [0..<width img]))
                   [0..<height img])"

definition mean_gray :: "image \<Rightarrow> rat" where
  "mean_gray img = of_nat (gray_sum img) / of_nat (width img * height img)"

definition tie_page :: image where
  "tie_page = \<lparr>width = 1, height = 2, pixels = L [[127], [128]]\<rparr>"

definition content_pixel :: "image \<Rightarrow> int \<Rightarrow> int \<Rightarrow> nat \<Rightarrow> nat \<Rightarrow> bool" where
  \<comment> \<open>the pixel at \<open>(x, y)\<close> survives the mask: neither too light nor too dark\<close>
  "content_pixel img blank_threshold dark_threshold x y =
     (let v = uint (gray_at img x y) in \<not> (v > blank_threshold \<or> v < dark_threshold))"

definition content_box :: "image \<Rightarrow> int \<Rightarrow> int \<Rightarrow> nat \<times> nat \<times> nat \<times> nat" where
  \<comment> \<open>the box \<^verbatim>\<open>(x0, y0, x1, y1)\<close> that \<^verbatim>\<open>crop_image_by_blank_or_dark_space\<close> computes\<close>
  "content_box img blank_threshold dark_threshold =
     bounding_box (argwhere (crop_mask img blank_threshold dark_threshold))"

definition covers :: "image \<Rightarrow> int \<Rightarrow> int \<Rightarrow> nat \<times> nat \<times> nat \<times> nat \<Rightarrow> bool" where
  \<comment> \<open>every surviving pixel of the image lies in the box\<close>
  "covers img blank_threshold dark_threshold box = (case box of (a, b, c, d) \<Rightarrow>
     list_all (\<lambda>y. list_all (\<lambda>x. content_pixel img blank_threshold dark_threshold x y \<longrightarrow>
                                   a \<le> x \<and> x < c \<and> b \<le> y \<and> y < d)
                        [0..<width img])
              [0..<height img])"

definition framed_page :: image where
  "framed_page =
     \<lparr>width = 4, height = 4,
      pixels = L [[255, 255, 255, 255],
                  [255, 100, 250, 255],
                  [0, 10, 200, 255],
                  [255, 255, 255, 0]]\<rparr>"

definition blank_page :: image where
  "blank_page = \<lparr>width = 3, height = 2, pixels = L [[250, 250, 250], [250, 250, 250]]\<rparr>"

definition tall_colour_page :: image where
  "tall_colour_page =
     \<lparr>width = 2, height = 3,
      pixels = RGB [[(255, 0, 0), (20, 20, 20)], [(20, 20, 20), (20, 20, 20)],
                    [(20, 20, 20), (0, 0, 255)]]\<rparr>"

definition wide_colour_page :: image where
  "wide_colour_page =
     \<lparr>width = 4, height = 2,
      pixels = RGB [[(255, 0, 0), (20, 20, 20), (100, 100, 100), (100, 100, 100)],
                    [(20, 20, 20), (20, 20, 20), (100, 100, 100), (0, 0, 255)]]\<rparr>"

definition thin_page :: image where
  \<comment> \<open>a one-pixel wide column, one row taller than a canvas of 800 by 1280\<close>
  "thin_page = \<lparr>width = 1, height = 1281, pixels = L (replicate 1281 [0])\<rparr>"

definition sliver_page :: image where
  \<comment> \<open>a single row, wider than a canvas of 800 by 1280\<close>
  "sliver_page = \<lparr>width = 1700, height = 1, pixels = L [replicate 1700 0]\<rparr>"

section \<open>Properties\<close>

subsection \<open>Reading grids\<close>


lemma length_grid: "length (grid w h f) = h"
  by (simp add: grid_def)

lemma nth_grid: "y < h \<Longrightarrow> grid w h f ! y = map (\<lambda>x. f x y) [0..<w]"
  by (simp add: grid_def)

lemma pixel_at_grid: "x < w \<Longrightarrow> y < h \<Longrightarrow> pixel_at d (grid w h f) x y = f x y"
  by (simp add: pixel_at_def grid_def)

lemma gray_at_convert_L:
  "x < width img \<Longrightarrow> y < height img \<Longrightarrow> gray_at (convert_L img) x y = gray_at img x y"
  by (simp add: convert_L_def gray_at_def pixel_at_grid)

lemma width_convert_L: "width (convert_L img) = width img"
  and height_convert_L: "height (convert_L img) = height img"
  by (simp_all add: convert_L_def)

lemma width_crop: "width (crop img (x0, y0, x1, y1)) = x1 - x0"
  and height_crop: "height (crop img (x0, y0, x1, y1)) = y1 - y0"
  by (simp_all add: crop_def)

lemma gray_at_crop:
  "x < x1 - x0 \<Longrightarrow> y < y1 - y0 \<Longrightarrow>
   gray_at (crop img (x0, y0, x1, y1)) x y = gray_at img (x0 + x) (y0 + y)"
  by (cases "pixels img") (simp_all add: crop_def gray_at_def pixel_at_grid)

lemma getdata_L_row:
  assumes "y < height img"
  shows "getdata_L (crop (convert_L img) (0, y, width img, y + 1)) =
         map (\<lambda>x. gray_at img x y) [0..<width img]"
proof -
  have "getdata_L (crop (convert_L img) (0, y, width img, y + 1)) =
        map (\<lambda>x. gray_at (crop (convert_L img) (0, y, width img, y + 1)) x 0) [0..<width img]"
    by (simp add: getdata_L_def grid_def width_crop height_crop)
  also have "\<dots> = map (\<lambda>x. gray_at img x y) [0..<width img]"
    using assms by (simp add: gray_at_crop gray_at_convert_L width_convert_L height_convert_L)
  finally show ?thesis .
qed

lemma detect_filter:
  "detect_blank_or_dark_spaces img lt dt = filter (dead_row img lt dt) [0..<height img]"
proof -
  have "(list_all (\<lambda>pixel. uint pixel > lt)
            (getdata_L (crop (convert_L img) (0, y, width img, y + 1))) \<or>
         list_all (\<lambda>pixel. uint pixel < dt)
            (getdata_L (crop (convert_L img) (0, y, width img, y + 1)))) =
        dead_row img lt dt y" if "y < height img" for y
    unfolding getdata_L_row [OF that] by (auto simp: dead_row_def list_all_iff)
  then show ?thesis
    unfolding detect_blank_or_dark_spaces_def Let_def
    by (intro filter_cong) auto
qed


subsection \<open>The split loop\<close>

lemma split_loop_filter:
  "split_loop sp mg mh =
     filter (\<lambda>(a, b). int b - int a > mg \<and> int (b - a) \<ge> mh) (zip sp (tl sp))"
  by (induction sp mg mh rule: split_loop.induct) simp_all

lemma sorted_zip_tl:
  "sorted sp \<Longrightarrow> sorted_wrt (\<lambda>s t. snd s \<le> fst t) (zip sp (tl sp))"
proof (induction sp rule: induct_list012)
  case (3 x y zs)
  have "snd (x, y) \<le> fst p" if "p \<in> set (zip (y # zs) zs)" for p
  proof -
    from that have "fst p \<in> set (y # zs)" by (metis in_set_zipE prod.collapse)
    with 3(3) show ?thesis by auto
  qed
  with 3 show ?case by auto
qed simp_all

lemma zip_tl_le:
  "sorted sp \<Longrightarrow> (a, b) \<in> set (zip sp (tl sp)) \<Longrightarrow> a \<le> b"
proof (induction sp rule: induct_list012)
  case (3 x y zs)
  then show ?case by auto
qed simp_all

lemma sorted_positions:
  assumes "sorted_wrt (<) dead" "\<forall>d\<in>set dead. d < h"
  shows "sorted ([0] @ dead @ [h :: nat])"
  using assms by (auto simp: sorted_append strict_sorted_iff less_imp_le)

lemma detect_sorted: "sorted_wrt (<) (detect_blank_or_dark_spaces img lt dt)"
  by (simp add: detect_filter sorted_wrt_filter)

lemma detect_bound: "d \<in> set (detect_blank_or_dark_spaces img lt dt) \<Longrightarrow> d < height img"
  by (simp add: detect_filter)


lemma disjoint_ranges: "(b::nat) \<le> c \<Longrightarrow> {a..<b} \<inter> {c..<d} = {}"
  by auto

text \<open>
  Claim C8. For a strictly increasing list of dead rows inside the page, the segments
  the split loop emits from the split positions \<open>[0] @ dead @ [h]\<close> come in top-to-bottom
  order and do not overlap: each later segment starts at or after the end of each
  earlier one. Every emitted segment is one pair of consecutive split positions
  (never a merge of several), spans more than \<open>min_gap\<close> rows and is at least
  \<open>min_segment_height\<close> rows tall.
\<close>

theorem split_loop_segments:
  fixes dead :: "nat list"
  assumes "sorted_wrt (<) dead" and "\<forall>d\<in>set dead. d < h"
  shows "let sp = [0] @ dead @ [h]; segs = split_loop sp mg mh in
           sorted_wrt (\<lambda>s t. snd s \<le> fst t) segs \<and>
           (\<forall>i j. i < j \<and> j < length segs \<longrightarrow>
                  {fst (segs ! i)..<snd (segs ! i)} \<inter> {fst (segs ! j)..<snd (segs ! j)} = {}) \<and>
           (\<forall>(a, b)\<in>set segs.
              (a, b) \<in> set (zip sp (tl sp)) \<and> int b - int a > mg \<and>
              int b - int a \<ge> mh \<and> a \<le> b \<and> b \<le> h)"
proof -
  define sp where "sp = [0] @ dead @ [h]"
  define segs where "segs = split_loop sp mg mh"
  have sorted_sp: "sorted sp"
    unfolding sp_def by (rule sorted_positions [OF assms])
  have segs_filter:
    "segs = filter (\<lambda>(a, b). int b - int a > mg \<and> int (b - a) \<ge> mh) (zip sp (tl sp))"
    unfolding segs_def by (rule split_loop_filter)
  have ordered: "sorted_wrt (\<lambda>s t. snd s \<le> fst t) segs"
    unfolding segs_filter by (rule sorted_wrt_filter) (rule sorted_zip_tl [OF sorted_sp])
  have disjoint:
    "{fst (segs ! i)..<snd (segs ! i)} \<inter> {fst (segs ! j)..<snd (segs ! j)} = {}"
    if "i < j" "j < length segs" for i j
    using sorted_wrt_nth_less [OF ordered that] by (rule disjoint_ranges)
  have each: "(a, b) \<in> set (zip sp (tl sp)) \<and> int b - int a > mg \<and>
              int b - int a \<ge> mh \<and> a \<le> b \<and> b \<le> h"
    if "(a, b) \<in> set segs" for a b
  proof -
    from that have mem: "(a, b) \<in> set (zip sp (tl sp))"
      and gap: "int b - int a > mg" and tall: "int (b - a) \<ge> mh"
      by (simp_all add: segs_filter)
    from mem have le: "a \<le> b" by (rule zip_tl_le [OF sorted_sp])
    from mem have "b \<in> set (tl sp)" by (rule set_zip_rightD)
    then have "b \<in> set dead \<or> b = h" by (auto simp: sp_def)
    with assms(2) have "b \<le> h" by auto
    with mem gap tall le show ?thesis by simp
  qed
  from ordered disjoint each show ?thesis
    unfolding Let_def sp_def [symmetric] segs_def [symmetric] by blast
qed

theorem split_loop_segments_witness:
  "sorted_wrt (<) [2, 3, 10 :: nat] \<and> list_all (\<lambda>d. d < 20) [2, 3, 10 :: nat] \<and>
   split_loop ([0] @ [2, 3, 10] @ [20]) 2 5 = [(3, 10), (10, 20)] \<and>
   sorted_wrt (\<lambda>s t. snd s \<le> fst t) (split_loop ([0] @ [2, 3, 10] @ [20]) 2 5)"
  using split_loop_segments [of "[2, 3, 10]" 20 2 5] by simp

lemma detect_all_dead:
  "\<forall>y<height img. dead_row img lt dt y \<Longrightarrow>
   detect_blank_or_dark_spaces img lt dt = [0..<height img]"
  by (simp add: detect_filter)

lemma zip_upt_step: "(a, b) \<in> set (zip (0 # [0..<Suc h]) [0..<Suc h]) \<Longrightarrow> b \<le> a + 1"
proof -
  assume "(a, b) \<in> set (zip (0 # [0..<Suc h]) [0..<Suc h])"
  then obtain i where i: "i < Suc h" "(0 # [0..<Suc h]) ! i = a" "[0..<Suc h] ! i = b"
    by (auto simp: in_set_zip simp del: upt_Suc)
  from i(1,3) have "b = i" by (simp del: upt_Suc)
  moreover from i(1,2) have "a = i - 1" by (cases i) (simp_all del: upt_Suc)
  ultimately show ?thesis by simp
qed

lemma split_loop_small_steps:
  "\<forall>(a, b)\<in>set (zip sp (tl sp)). int b - int a \<le> mg \<Longrightarrow> split_loop sp mg mh = []"
  by (auto simp: split_loop_filter filter_empty_conv)

lemma all_dead_positions:
  "\<forall>y<height img. dead_row img lt dt y \<Longrightarrow>
   split_positions img lt dt = 0 # [0..<Suc (height img)]"
  by (simp add: split_positions_def detect_all_dead)

lemma all_dead_segments:
  assumes "\<forall>y<height img. dead_row img lt dt y" and "1 \<le> mg"
  shows "split_segments img lt dt mg mh = []"
proof -
  have "int b - int a \<le> mg" if "(a, b) \<in> set (zip (0 # [0..<Suc (height img)]) [0..<Suc (height img)])" for a b
    using zip_upt_step [OF that] assms(2) by simp
  then show ?thesis
    unfolding split_segments_def all_dead_positions [OF assms(1)]
    by (intro split_loop_small_steps) (auto simp del: upt_Suc)
qed


text \<open>
  Claim C10. When every row of the page is dead and \<open>min_gap\<close> is at least 1, the
  detection returns every row index, consecutive split positions differ by at most
  1, and \<^verbatim>\<open>split_image_by_blank_or_dark_spaces\<close> returns the empty list.
\<close>

theorem all_dead_no_output:
  assumes "\<forall>y<height img. dead_row img lt dt y" and "1 \<le> min_gap"
  shows "detect_blank_or_dark_spaces img lt dt = [0..<height img] \<and>
         (\<forall>(prev, cur)\<in>set (zip (split_positions img lt dt) (tl (split_positions img lt dt))).
            int cur - int prev \<le> 1) \<and>
         split_image_by_blank_or_dark_spaces resize sw sh img lt dt min_gap mh = []"
proof -
  have "int cur - int prev \<le> 1"
    if "(prev, cur) \<in> set (zip (split_positions img lt dt) (tl (split_positions img lt dt)))"
    for prev cur
    using that zip_upt_step [of prev cur "height img"]
    unfolding all_dead_positions [OF assms(1)] by (simp del: upt_Suc)
  moreover have "split_image_by_blank_or_dark_spaces resize sw sh img lt dt min_gap mh = []"
    by (simp add: split_image_by_blank_or_dark_spaces_def all_dead_segments [OF assms])
  ultimately show ?thesis
    using detect_all_dead [OF assms(1)] by blast
qed

subsection \<open>The scenario page\<close>

lemma rgb2l_white: "rgb2l (255, 255, 255) = 255"
  and rgb2l_black: "rgb2l (0, 0, 0) = 0"
  by (simp_all add: rgb2l_def)

lemma scenario_page_dead:
  assumes "y < height scenario_page"
  shows "dead_row scenario_page 240 15 y"
proof -
  define rows :: "rgb list list" where
    "rows = replicate 600 (replicate 800 (255, 255, 255)) @
            replicate 50 (replicate 800 (0, 0, 0)) @
            replicate 750 (replicate 800 (255, 255, 255)) @
            replicate 50 (replicate 800 (0, 0, 0)) @
            replicate 550 (replicate 800 (255, 255, 255))"
  have px: "pixels scenario_page = RGB rows"
    by (simp add: scenario_page_def rows_def)
  have len: "length rows = 2000"
    by (simp add: rows_def)
  from assms have y: "y < length rows"
    by (simp add: len scenario_page_def)
  then have "rows ! y \<in> set rows"
    by (rule nth_mem)
  then consider "rows ! y = replicate 800 (255, 255, 255)" | "rows ! y = replicate 800 (0, 0, 0)"
    by (auto simp: rows_def)
  then show ?thesis
  proof cases
    case 1
    then have "gray_at scenario_page x y = 255" if "x < 800" for x
      using that y by (simp add: gray_at_def px pixel_at_def rgb2l_white)
    then show ?thesis
      by (simp add: dead_row_def list_all_iff scenario_page_def)
  next
    case 2
    then have "gray_at scenario_page x y = 0" if "x < 800" for x
      using that y by (simp add: gray_at_def px pixel_at_def rgb2l_black)
    then show ?thesis
      by (simp add: dead_row_def list_all_iff scenario_page_def)
  qed
qed

text \<open>
  Claim C1, as the code has it. On the all-white 800 by 2000 page with two black
  bands, the white rows are dead as well as the black ones, so the detection returns
  all 2000 rows and the split loop, with \<open>min_gap = 20\<close> and
  \<open>min_segment_height = 75\<close>, keeps no segment at all.
\<close>

theorem scenario_page_no_segments:
  "detect_blank_or_dark_spaces scenario_page 240 15 = [0..<2000] \<and>
   split_segments scenario_page 240 15 20 75 = []"
proof -
  have dead: "\<forall>y<height scenario_page. dead_row scenario_page 240 15 y"
    using scenario_page_dead by blast
  have "height scenario_page = 2000"
    by (simp add: scenario_page_def)
  with detect_all_dead [OF dead] all_dead_segments [OF dead, of 20 75] show ?thesis
    by simp
qed

text \<open>
  Claim C1 as stated fails: the pipeline does not yield the three segments
  \<open>[0,600)\<close>, \<open>[650,1400)\<close>, \<open>[1450,2000)\<close> on that page.
\<close>

theorem scenario_page_three_segments_counterexample:
  "split_segments scenario_page 240 15 20 75 \<noteq> [(0, 600), (650, 1400), (1450, 2000)]"
proof -
  have dead: "\<forall>y<height scenario_page. dead_row scenario_page 240 15 y"
    using scenario_page_dead by blast
  show ?thesis
    using all_dead_segments [OF dead, of 20 75] by simp
qed

theorem scenario_page_no_segments_witness:
  "length (split_segments scenario_page 240 15 20 75) = 0"
  using scenario_page_no_segments by simp

theorem all_dead_no_output_witness:
  "list_all (dead_row blank_strip 240 15) [0..<height blank_strip] \<and> (1::int) \<le> 20 \<and>
   detect_blank_or_dark_spaces blank_strip 240 15 = [0, 1, 2] \<and>
   split_image_by_blank_or_dark_spaces resize_nearest 4 4 blank_strip 240 15 20 75 = []"
proof -
  have rows: "list_all (dead_row blank_strip 240 15) [0..<height blank_strip]"
    by code_simp
  then have dead: "\<forall>y<height blank_strip. dead_row blank_strip 240 15 y"
    by (simp add: list_all_iff)
  have h: "[0..<height blank_strip] = [0, 1, 2]"
    by code_simp
  show ?thesis
    using rows all_dead_no_output [OF dead, of 20 resize_nearest 4 4 75] by (simp add: h)
qed


subsection \<open>Mean intensity and background\<close>

lemma grid_cong:
  "(\<And>x y. x < w \<Longrightarrow> y < h \<Longrightarrow> f x y = g x y) \<Longrightarrow> grid w h f = grid w h g"
  by (simp add: grid_def)

lemma length_concat_grid: "length (concat (grid w h f)) = w * h"
  by (simp add: grid_def length_concat comp_def sum_list_triv)

lemma sum_list_concat_rows: "sum_list (concat xss) = sum_list (map sum_list xss)"
  for xss :: "'a::monoid_add list list"
  by (induction xss) simp_all

lemma sum_list_concat_grid:
  "sum_list (map k (concat (grid w h f))) =
   sum_list (map (\<lambda>y. sum_list (map (\<lambda>x. k (f x y)) [0..<w])) [0..<h])"
  by (simp add: grid_def map_concat comp_def sum_list_concat_rows)

lemma getdata_L_convert_L:
  "getdata_L (convert_L img) = concat (grid (width img) (height img) (gray_at img))"
proof -
  have "grid (width img) (height img) (gray_at (convert_L img)) =
        grid (width img) (height img) (gray_at img)"
    by (rule grid_cong) (rule gray_at_convert_L)
  then show ?thesis
    by (simp add: getdata_L_def width_convert_L height_convert_L)
qed

lemma average_brightness_eq:
  "average_brightness img =
     (if width img * height img = 0 then Inl ZeroDivisionError
      else Inr (of_nat (gray_sum img) / of_nat (width img * height img)))"
  unfolding average_brightness_def Let_def getdata_L_convert_L length_concat_grid
    sum_list_concat_grid gray_sum_def
  by simp

lemma unat_le_255: "unat (v :: 8 word) \<le> 255"
  using unsigned_less [of v, where ?'a = nat] by simp

lemma sum_list_bound:
  "(\<And>x. x \<in> set xs \<Longrightarrow> f x \<le> (c::nat)) \<Longrightarrow> sum_list (map f xs) \<le> c * length xs"
  by (induction xs) (auto simp: add_mono)

lemma gray_sum_le: "gray_sum img \<le> 255 * (width img * height img)"
proof -
  have "sum_list (map (\<lambda>x. unat (gray_at img x y)) [0..<width img]) \<le> 255 * width img" for y
    using sum_list_bound [of "[0..<width img]" "\<lambda>x. unat (gray_at img x y)" 255]
    by (simp add: unat_le_255)
  then have "gray_sum img \<le> (255 * width img) * length [0..<height img]"
    unfolding gray_sum_def by (intro sum_list_bound) simp
  then show ?thesis by (simp add: mult.assoc)
qed

lemma best_background_eq:
  assumes "0 < width img" "0 < height img"
  shows "best_background_for_image img =
         Inr (if 2 * gray_sum img < 255 * (width img * height img) then BLACK else WHITE)"
proof -
  define n where "n = width img * height img"
  define m :: rat where "m = of_nat (gray_sum img) / of_nat n"
  from assms have n: "0 < n" by (simp add: n_def)
  have avg: "average_brightness img = Inr m"
    using n by (simp add: average_brightness_eq m_def n_def)
  have "(of_nat (gray_sum img) :: rat) \<le> of_nat (255 * n)"
    unfolding of_nat_le_iff n_def by (rule gray_sum_le)
  then have "m \<le> 255"
    using n by (simp add: m_def divide_le_eq)
  then have "\<bar>255 - m\<bar> > m \<longleftrightarrow> 2 * m < 255" by linarith
  also have "\<dots> \<longleftrightarrow> 2 * gray_sum img < 255 * n"
  proof -
    have "2 * m < 255 \<longleftrightarrow> (of_nat (2 * gray_sum img) :: rat) < of_nat (255 * n)"
      using n by (simp add: m_def field_simps)
    then show ?thesis by (simp only: of_nat_less_iff)
  qed
  finally show ?thesis
    by (simp add: best_background_for_image_def avg n_def)
qed


text \<open>
  Claim C6. For an image with at least one pixel, so that its mean
  grayscale intensity \<open>m\<close> exists, \<^verbatim>\<open>best_background_for_image\<close> returns BLACK \<open>(0,0,0)\<close>
  exactly when \<open>\<bar>255 - m\<bar> > m\<close> and WHITE \<open>(255,255,255)\<close> otherwise; a tie gives WHITE,
  and the result is one of the two colours.
\<close>

theorem background_by_mean:
  assumes "0 < width img" and "0 < height img"
  shows "\<exists>m. average_brightness img = Inr m \<and> m = mean_gray img \<and>
           (best_background_for_image img = Inr BLACK \<longleftrightarrow> \<bar>255 - m\<bar> > m) \<and>
           (best_background_for_image img = Inr WHITE \<longleftrightarrow> \<not> \<bar>255 - m\<bar> > m) \<and>
           (\<bar>255 - m\<bar> = m \<longrightarrow> best_background_for_image img = Inr WHITE) \<and>
           (best_background_for_image img = Inr BLACK \<or>
            best_background_for_image img = Inr WHITE) \<and>
           BLACK = (0, 0, 0) \<and> WHITE = (255, 255, 255)"
proof -
  from assms have avg: "average_brightness img = Inr (mean_gray img)"
    by (simp add: average_brightness_eq mean_gray_def)
  have "BLACK \<noteq> WHITE"
    by (simp add: BLACK_def WHITE_def)
  with avg show ?thesis
    by (auto simp: best_background_for_image_def BLACK_def WHITE_def)
qed

theorem background_by_mean_witness:
  "average_brightness tie_page = Inr (255 / 2) \<and>
   best_background_for_image tie_page = Inr WHITE \<and> \<bar>255 - 255 / 2\<bar> = (255 / 2 :: rat)"
proof -
  have avg: "average_brightness tie_page = Inr (255 / 2)"
    by code_simp
  have "0 < width tie_page" "0 < height tie_page"
    by (simp_all add: tie_page_def)
  from background_by_mean [OF this] avg show ?thesis
    by auto
qed

subsection \<open>Cropping to the content\<close>

lemma crop_mask_eq:
  "crop_mask img bt dt = grid (width img) (height img) (content_pixel img bt dt)"
  unfolding crop_mask_def Let_def width_convert_L height_convert_L
  by (rule grid_cong) (simp add: content_pixel_def gray_at_convert_L Let_def)

lemma set_argwhere_grid: "set (argwhere (grid w h f)) = {(y, x). y < h \<and> x < w \<and> f x y}"
  by (auto simp: argwhere_def length_grid nth_grid)

lemma set_coords:
  "set (argwhere (crop_mask img bt dt)) =
     {(y, x). y < height img \<and> x < width img \<and> content_pixel img bt dt x y}"
  by (simp add: crop_mask_eq set_argwhere_grid)

lemma covers_iff:
  "covers img bt dt (a, b, c, d) \<longleftrightarrow>
     (\<forall>p\<in>set (argwhere (crop_mask img bt dt)). a \<le> snd p \<and> snd p < c \<and> b \<le> fst p \<and> fst p < d)"
  by (auto simp: covers_def list_all_iff set_coords)

text \<open>
  Claim C9. When no pixel of the image survives the mask (each is above the blank
  threshold or below the dark threshold), \<^verbatim>\<open>crop_image_by_blank_or_dark_space\<close> returns
  the image it was given, unchanged; the function is total on such input.
\<close>

theorem crop_unchanged_without_content:
  assumes "\<forall>y<height img. \<forall>x<width img. \<not> content_pixel img bt dt x y"
  shows "crop_image_by_blank_or_dark_space img bt dt = img"
proof -
  from assms have "set (argwhere (crop_mask img bt dt)) = {}"
    by (auto simp: set_coords)
  then show ?thesis
    by (simp add: crop_image_by_blank_or_dark_space_def)
qed


theorem crop_unchanged_without_content_witness:
  "list_all (\<lambda>y. list_all (\<lambda>x. \<not> content_pixel blank_page 240 30 x y) [0..<width blank_page])
     [0..<height blank_page] \<and>
   crop_image_by_blank_or_dark_space blank_page 240 30 = blank_page"
proof -
  have blank: "list_all (\<lambda>y. list_all (\<lambda>x. \<not> content_pixel blank_page 240 30 x y)
                  [0..<width blank_page]) [0..<height blank_page]"
    by code_simp
  then have "\<forall>y<height blank_page. \<forall>x<width blank_page. \<not> content_pixel blank_page 240 30 x y"
    by (simp add: list_all_iff)
  from crop_unchanged_without_content [OF this] blank show ?thesis
    by simp
qed

text \<open>
  Claim C5. When some pixel of the image survives the mask, the image is cropped to
  the box \<open>(x0, y0, x1, y1)\<close> that lies inside the image, covers every surviving pixel
  and is contained in every box that covers them all; so it is the only minimal
  covering box.
\<close>

theorem crop_to_content_box:
  assumes "x < width img" and "y < height img" and "content_pixel img bt dt x y"
  shows "crop_image_by_blank_or_dark_space img bt dt = crop img (content_box img bt dt) \<and>
         covers img bt dt (content_box img bt dt) \<and>
         (case content_box img bt dt of (x0, y0, x1, y1) \<Rightarrow>
            x0 < x1 \<and> x1 \<le> width img \<and> y0 < y1 \<and> y1 \<le> height img \<and>
            (\<forall>a b c d. covers img bt dt (a, b, c, d) \<longrightarrow>
               a \<le> x0 \<and> b \<le> y0 \<and> x1 \<le> c \<and> y1 \<le> d) \<and>
            (\<forall>a b c d. covers img bt dt (a, b, c, d) \<and>
               x0 \<le> a \<and> y0 \<le> b \<and> c \<le> x1 \<and> d \<le> y1 \<longrightarrow>
               (a, b, c, d) = (x0, y0, x1, y1)))"
proof -
  define coords where "coords = argwhere (crop_mask img bt dt)"
  define X where "X = snd ` set coords"
  define Y where "Y = fst ` set coords"
  define x0 y0 x1 y1 where "x0 = Min X" and "y0 = Min Y" and "x1 = Max X + 1" and "y1 = Max Y + 1"
  have coords: "set coords = {(y, x). y < height img \<and> x < width img \<and> content_pixel img bt dt x y}"
    unfolding coords_def by (rule set_coords)
  with assms have mem: "(y, x) \<in> set coords"
    by simp
  then have nonempty: "coords \<noteq> []"
    by auto
  have fin: "finite X" "finite Y"
    by (simp_all add: X_def Y_def)
  from mem have ne: "X \<noteq> {}" "Y \<noteq> {}"
    by (auto simp: X_def Y_def)
  have box: "content_box img bt dt = (x0, y0, x1, y1)"
    by (simp add: content_box_def bounding_box_def coords_def [symmetric]
          X_def Y_def x0_def y0_def x1_def y1_def)
  have crop: "crop_image_by_blank_or_dark_space img bt dt = crop img (content_box img bt dt)"
    using nonempty
    by (simp add: crop_image_by_blank_or_dark_space_def content_box_def coords_def [symmetric])
  have X_bound: "u < width img" if "u \<in> X" for u
    using that coords by (auto simp: X_def)
  have Y_bound: "v < height img" if "v \<in> Y" for v
    using that coords by (auto simp: Y_def)
  have in_X: "x0 \<in> X" "Max X \<in> X" and in_Y: "y0 \<in> Y" "Max Y \<in> Y"
    using fin ne by (simp_all add: x0_def y0_def)
  have order: "x0 < x1" "y0 < y1"
    using fin in_X in_Y by (simp_all add: x0_def y0_def x1_def y1_def less_Suc_eq_le)
  have inside: "x1 \<le> width img" "y1 \<le> height img"
    using X_bound [OF in_X(2)] Y_bound [OF in_Y(2)] by (simp_all add: x1_def y1_def)
  have cover: "covers img bt dt (x0, y0, x1, y1)"
    unfolding covers_iff coords_def [symmetric]
    using fin by (auto simp: x0_def y0_def x1_def y1_def X_def Y_def less_Suc_eq_le)
  have least: "a \<le> x0 \<and> b \<le> y0 \<and> x1 \<le> c \<and> y1 \<le> d"
    if "covers img bt dt (a, b, c, d)" for a b c d
  proof -
    from that have all: "\<forall>p\<in>set coords. a \<le> snd p \<and> snd p < c \<and> b \<le> fst p \<and> fst p < d"
      unfolding covers_iff coords_def .
    have X: "a \<le> u \<and> u < c" if "u \<in> X" for u
      using that all unfolding X_def by fastforce
    have Y: "b \<le> v \<and> v < d" if "v \<in> Y" for v
      using that all unfolding Y_def by fastforce
    from X [OF in_X(1)] X [OF in_X(2)] Y [OF in_Y(1)] Y [OF in_Y(2)] show ?thesis
      unfolding x1_def y1_def by linarith
  qed
  have unique: "(a, b, c, d) = (x0, y0, x1, y1)"
    if "covers img bt dt (a, b, c, d)" "x0 \<le> a" "y0 \<le> b" "c \<le> x1" "d \<le> y1" for a b c d
    using least [OF that(1)] that(2-) by simp
  have L: "\<forall>a b c d. covers img bt dt (a, b, c, d) \<longrightarrow>
             a \<le> x0 \<and> b \<le> y0 \<and> x1 \<le> c \<and> y1 \<le> d"
    by (intro allI impI) (rule least)
  have U: "\<forall>a b c d. covers img bt dt (a, b, c, d) \<and>
             x0 \<le> a \<and> y0 \<le> b \<and> c \<le> x1 \<and> d \<le> y1 \<longrightarrow>
             (a, b, c, d) = (x0, y0, x1, y1)"
    by (intro allI impI, elim conjE) (rule unique)
  from crop [unfolded box] cover order inside L U show ?thesis
    unfolding box prod.case by (intro conjI)
qed

theorem crop_to_content_box_witness:
  "content_pixel framed_page 240 30 1 1 \<and>
   content_box framed_page 240 30 = (1, 1, 3, 3) \<and>
   crop_image_by_blank_or_dark_space framed_page 240 30 =
     \<lparr>width = 2, height = 2, pixels = L [[100, 250], [10, 200]]\<rparr>"
proof -
  have px: "content_pixel framed_page 240 30 1 1"
    by code_simp
  have wh: "1 < width framed_page" "1 < height framed_page"
    by (simp_all add: framed_page_def)
  have box: "content_box framed_page 240 30 = (1, 1, 3, 3)"
    by code_simp
  have "crop framed_page (1, 1, 3, 3) = \<lparr>width = 2, height = 2, pixels = L [[100, 250], [10, 200]]\<rparr>"
    by code_simp
  with crop_to_content_box [OF wh px] px box show ?thesis
    by simp
qed

subsection \<open>Page classification\<close>

text \<open>
  Claim C2, as the code has it. \<^verbatim>\<open>is_not_manga\<close> is true exactly for an image of
  non-zero height whose three channels differ at some pixel, whatever its aspect
  ratio: a coloured image that fails the test on the aspect ratio reaches the last
  branch, which returns \<^verbatim>\<open>True\<close> as well. A page goes to the splitter exactly when its
  index is not 0 and it is coloured in this sense.
\<close>

theorem is_not_manga_colour_only:
  "(is_not_manga img \<longleftrightarrow> height img \<noteq> 0 \<and> is_colored img) \<and>
   split_and_crop_image resize sw sh img page_num img_index =
     (if page_num \<noteq> 0 \<and> height img \<noteq> 0 \<and> is_colored img
      then split_image_by_blank_or_dark_spaces resize sw sh img 240 15 20 75
      else [enhance_image_for_screen resize sw sh (crop_image_by_blank_or_dark_space img 240 30)])"
  by (simp add: is_not_manga_def split_and_crop_image_def)

theorem is_not_manga_colour_only_witness:
  "is_not_manga tall_colour_page \<and> is_colored tall_colour_page \<and>
   height tall_colour_page = 3 \<and> width tall_colour_page = 2"
proof -
  have "is_colored tall_colour_page"
    by code_simp
  moreover have "height tall_colour_page = 3" "width tall_colour_page = 2"
    by (simp_all add: tall_colour_page_def)
  ultimately show ?thesis
    using is_not_manga_colour_only [of tall_colour_page] by simp
qed

text \<open>
  Claim C2 as stated fails: a coloured page two pixels wide and three tall has aspect
  ratio below 1.5, and \<^verbatim>\<open>is_not_manga\<close> is true of it.
\<close>

theorem narrow_colour_page_counterexample:
  "\<not> (is_not_manga tall_colour_page \<longleftrightarrow>
        (of_nat (width tall_colour_page) / of_nat (height tall_colour_page) :: rat) > 3 / 2 \<and>
        is_colored tall_colour_page)"
  by code_simp

text \<open>
  Claim C3. On page index 0, \<^verbatim>\<open>split_and_crop_image\<close> returns exactly one image: the
  page cropped to its content and fitted to the screen, whatever the page looks like.
\<close>

theorem first_page_single_crop:
  "split_and_crop_image resize sw sh img 0 img_index =
     [enhance_image_for_screen resize sw sh (crop_image_by_blank_or_dark_space img 240 30)] \<and>
   length (split_and_crop_image resize sw sh img 0 img_index) = 1"
  by (simp add: split_and_crop_image_def)

theorem first_page_single_crop_witness:
  "is_not_manga wide_colour_page \<and>
   (of_nat (width wide_colour_page) / of_nat (height wide_colour_page) :: rat) > 3 / 2 \<and>
   length (split_and_crop_image resize_nearest 4 4 wide_colour_page 0 0) = 1"
proof -
  have "is_not_manga wide_colour_page"
    by code_simp
  moreover have
    "(of_nat (width wide_colour_page) / of_nat (height wide_colour_page) :: rat) > 3 / 2"
    by code_simp
  ultimately show ?thesis
    using first_page_single_crop [of resize_nearest 4 4 wide_colour_page 0] by simp
qed

subsection \<open>Rounding to double precision\<close>

text \<open>
  The exponent is the floor of the binary logarithm, rounding moves a positive number
  by at most the fraction \<open>2\<^sup>-\<^sup>5\<^sup>3\<close> of itself, and the integers below \<open>2\<^sup>5\<^sup>3\<close> are doubles.
\<close>

lemma round_half_even_error: "\<bar>of_int (round_half_even x) - x\<bar> \<le> 1 / 2"
proof -
  define r where "r = x - of_int \<lfloor>x\<rfloor>"
  have r: "0 \<le> r" "r < 1"
    unfolding r_def by linarith+
  have down: "\<bar>of_int \<lfloor>x\<rfloor> - x\<bar> \<le> 1 / 2" if "r \<le> 1 / 2"
    using that r unfolding r_def by linarith
  have up: "\<bar>of_int (\<lfloor>x\<rfloor> + 1) - x\<bar> \<le> 1 / 2" if "1 / 2 \<le> r"
    using that r unfolding r_def by simp
  show ?thesis
    unfolding round_half_even_def Let_def r_def [symmetric]
    using down up by (simp add: not_less)
qed

lemma round_half_even_of_int: "round_half_even (of_int k) = k"
  by (simp add: round_half_even_def)

lemma exponent_le:
  assumes "0 < q"
  shows "2 powi (exponent q) \<le> q"
proof -
  obtain a b where ab: "quotient_of q = (a, b)"
    by (cases "quotient_of q")
  have b: "0 < b"
    using ab by (rule quotient_of_denom_pos)
  have q: "q = of_int a / of_int b"
    using ab by (rule quotient_of_div)
  have a: "0 < a"
    using assms b unfolding q by (simp add: zero_less_divide_iff)
  define d where "d = bitlen a - bitlen b"
  have "2 powi (d - 1) \<le> q"
  proof -
    have "(2 :: int) ^ nat (bitlen a - 1) \<le> a" "b < 2 ^ nat (bitlen b)"
      using bitlen_bounds [OF a] bitlen_bounds [OF b] by simp_all
    then have "(of_int (2 ^ nat (bitlen a - 1)) :: rat) \<le> of_int a"
      "(of_int b :: rat) \<le> of_int (2 ^ nat (bitlen b))"
      unfolding of_int_le_iff by simp_all
    moreover have "1 \<le> bitlen a"
      using a bitlen_eq_zero_iff [of a] bitlen_nonneg [of a] by arith
    ultimately have A: "(2 :: rat) powi (bitlen a - 1) \<le> of_int a"
      and B: "(of_int b :: rat) \<le> 2 powi (bitlen b)"
      using bitlen_nonneg [of b] by (simp_all add: power_int_def)
    have "(2 :: rat) powi (d - 1) = 2 powi (bitlen a - 1) / 2 powi (bitlen b)"
      unfolding d_def by (simp add: power_int_diff)
    also have "\<dots> \<le> of_int a / 2 powi (bitlen b)"
      using A by (simp add: divide_right_mono)
    also have "\<dots> \<le> of_int a / of_int b"
      using B a b by (simp add: frac_le)
    finally show ?thesis
      by (simp add: q)
  qed
  then show ?thesis
    by (simp add: exponent_def ab d_def Let_def)
qed

lemma exponent_gt:
  assumes "0 < q"
  shows "q < 2 powi (exponent q + 1)"
proof -
  obtain a b where ab: "quotient_of q = (a, b)"
    by (cases "quotient_of q")
  have b: "0 < b"
    using ab by (rule quotient_of_denom_pos)
  have q: "q = of_int a / of_int b"
    using ab by (rule quotient_of_div)
  have a: "0 < a"
    using assms b unfolding q by (simp add: zero_less_divide_iff)
  define d where "d = bitlen a - bitlen b"
  have "q < 2 powi (d + 1)"
  proof -
    have "a < 2 ^ nat (bitlen a)" "(2 :: int) ^ nat (bitlen b - 1) \<le> b"
      using bitlen_bounds [OF a] bitlen_bounds [OF b] by simp_all
    then have "(of_int a :: rat) < of_int (2 ^ nat (bitlen a))"
      "(of_int (2 ^ nat (bitlen b - 1)) :: rat) \<le> of_int b"
      unfolding of_int_le_iff of_int_less_iff by simp_all
    moreover have "1 \<le> bitlen b"
      using b bitlen_eq_zero_iff [of b] bitlen_nonneg [of b] by arith
    ultimately have A: "(of_int a :: rat) < 2 powi (bitlen a)"
      and B: "(2 :: rat) powi (bitlen b - 1) \<le> of_int b"
      using bitlen_nonneg [of a] by (simp_all add: power_int_def)
    have "(of_int a :: rat) / of_int b \<le> of_int a / 2 powi (bitlen b - 1)"
      using B a b by (intro divide_left_mono) simp_all
    also have "\<dots> < 2 powi (bitlen a) / 2 powi (bitlen b - 1)"
      using A by (simp add: divide_strict_right_mono)
    also have "\<dots> = 2 powi (bitlen a - (bitlen b - 1))"
      by (subst power_int_diff) simp_all
    also have "bitlen a - (bitlen b - 1) = d + 1"
      by (simp add: d_def)
    finally show ?thesis
      by (simp add: q)
  qed
  then show ?thesis
    by (auto simp: exponent_def ab d_def Let_def not_le)
qed

lemma fl_error:
  assumes "0 < q"
  shows "\<bar>fl q - q\<bar> \<le> q / 2 ^ 53"
proof -
  define ulp :: rat where "ulp = 2 powi (exponent q - 52)"
  define m where "m = q / ulp"
  have ulp: "0 < ulp"
    by (simp add: ulp_def)
  have "ulp * 2 ^ 52 = 2 powi (exponent q)"
    by (simp add: ulp_def power_int_diff)
  with exponent_le [OF assms] have "ulp * 2 ^ 52 \<le> q"
    by simp
  then have half: "ulp / 2 \<le> q / 2 ^ 53"
    by simp
  have "fl q = of_int (round_half_even m) * ulp"
    using assms by (simp add: fl_def ulp_def m_def Let_def)
  moreover have "q = m * ulp"
    using ulp by (simp add: m_def)
  ultimately have "fl q - q = (of_int (round_half_even m) - m) * ulp"
    by (simp add: algebra_simps)
  then have "\<bar>fl q - q\<bar> = \<bar>of_int (round_half_even m) - m\<bar> * ulp"
    using ulp by (simp add: abs_mult)
  also have "\<dots> \<le> (1 / 2) * ulp"
    using round_half_even_error [of m] ulp by (intro mult_right_mono) simp_all
  finally show ?thesis
    using half by simp
qed

lemma fl_of_nat:
  assumes "n < 2 ^ 53"
  shows "fl (of_nat n) = of_nat n"
proof (cases "n = 0")
  case True
  then show ?thesis
    by (simp add: fl_def)
next
  case False
  define q :: rat where "q = of_nat n"
  define e where "e = exponent q"
  have q: "0 < q"
    using False by (simp add: q_def)
  have "2 powi e \<le> q"
    unfolding e_def by (rule exponent_le [OF q])
  also have "q < 2 powi 53"
  proof -
    have "(of_nat n :: rat) < of_nat (2 ^ 53)"
      using assms by (simp only: of_nat_less_iff)
    then show ?thesis
      by (simp add: q_def)
  qed
  finally have "e < 53"
    by (rule power_int_le_imp_less_exp [rotated]) simp_all
  define k where "k = nat (52 - e)"
  have ulp: "(2 :: rat) powi (e - 52) = 1 / 2 ^ k"
    using \<open>e < 53\<close> by (simp add: k_def power_int_def field_simps)
  have "q / (2 powi (e - 52)) = of_int (int (n * 2 ^ k))"
    unfolding ulp by (simp add: q_def)
  then have "round_half_even (q / (2 powi (e - 52))) = int (n * 2 ^ k)"
    by (simp only: round_half_even_of_int)
  then have "fl q = of_int (int (n * 2 ^ k)) * (1 / 2 ^ k)"
    using q by (simp add: fl_def Let_def e_def [symmetric] ulp)
  then show ?thesis
    by (simp add: q_def)
qed

lemma fl_bounds:
  assumes "0 < q"
  shows "(1 - 1 / 2 ^ 53) * q \<le> fl q" and "fl q \<le> (1 + 1 / 2 ^ 53) * q"
proof -
  from fl_error [OF assms] have "fl q - q \<le> q / 2 ^ 53" "q - fl q \<le> q / 2 ^ 53"
    by linarith+
  then show "(1 - 1 / 2 ^ 53) * q \<le> fl q" and "fl q \<le> (1 + 1 / 2 ^ 53) * q"
    by (simp_all add: algebra_simps)
qed

lemma fl_pos:
  assumes "0 < q"
  shows "0 < fl q"
proof -
  have "0 < (1 - 1 / 2 ^ 53) * q"
    using assms by simp
  with fl_bounds(1) [OF assms] show ?thesis
    by linarith
qed

lemma fl_ratio:
  fixes w h :: nat
  assumes "0 < w" and "0 < h"
  defines "a \<equiv> fl (of_nat w / of_nat h)"
  shows "(1 - 1 / 2 ^ 53) * of_nat w \<le> a * of_nat h"
    and "a * of_nat h \<le> (1 + 1 / 2 ^ 53) * of_nat w"
    and "0 < a"
proof -
  define A :: rat where "A = of_nat w / of_nat h"
  have A: "0 < A" "A * of_nat h = of_nat w"
    using assms by (simp_all add: A_def)
  have "(1 - 1 / 2 ^ 53) * A * of_nat h \<le> a * of_nat h"
    unfolding a_def A_def [symmetric] using fl_bounds(1) [OF A(1)]
    by (intro mult_right_mono) simp_all
  then show "(1 - 1 / 2 ^ 53) * of_nat w \<le> a * of_nat h"
    using A(2) by (simp add: mult.assoc)
  have "a * of_nat h \<le> (1 + 1 / 2 ^ 53) * A * of_nat h"
    unfolding a_def A_def [symmetric] using fl_bounds(2) [OF A(1)]
    by (intro mult_right_mono) simp_all
  then show "a * of_nat h \<le> (1 + 1 / 2 ^ 53) * of_nat w"
    using A(2) by (simp add: mult.assoc)
  show "0 < a"
    unfolding a_def A_def [symmetric] by (rule fl_pos [OF A(1)])
qed


subsection \<open>The scaled dimension\<close>

text \<open>
  For sizes below \<open>2\<^sup>2\<^sup>5\<close> the two roundings move the scaled dimension by less than one
  part in the denominator, so that truncation yields the floor of the exact quotient or,
  when that quotient is an integer, possibly the integer below it; and the comparison
  of the rounded aspect ratios is the comparison of the exact ones.
\<close>

lemma close_above:
  fixes P N Y :: rat
  assumes "(1 - 1 / 2 ^ 53) * P \<le> Y" and "Y \<le> (1 + 1 / 2 ^ 53) * N"
    and "0 \<le> N" and "N < 2 ^ 50"
  shows "P < N + 1"
  using assms by simp

lemma close_below:
  fixes P N Y :: rat
  assumes "Y \<le> (1 + 1 / 2 ^ 53) * P" and "(1 - 1 / 2 ^ 53) * N \<le> Y"
    and "0 \<le> N" and "N < 2 ^ 50"
  shows "N - 1 < P"
  using assms by simp

lemma close_above2:
  fixes P N Y :: rat
  assumes "P \<le> (1 + 1 / 2 ^ 53) * Y" and "Y \<le> (1 + 1 / 2 ^ 53) * N"
    and "0 \<le> N" and "N < 2 ^ 50"
  shows "P < N + 1"
  using assms by simp

lemma close_below2:
  fixes P N Y :: rat
  assumes "(1 - 1 / 2 ^ 53) * Y \<le> P" and "(1 - 1 / 2 ^ 53) * N \<le> Y"
    and "0 \<le> N" and "N < 2 ^ 50"
  shows "N - 1 < P"
  using assms by simp

lemma compare_above:
  fixes P Q A S :: rat
  assumes "A \<le> (1 + 1 / 2 ^ 53) * P" and "(1 - 1 / 2 ^ 53) * Q \<le> S"
    and "P + Q < 2 ^ 52" and "0 \<le> P" and "0 \<le> Q" and "S < A"
  shows "Q < P + 1"
  using assms by simp

lemma compare_below:
  fixes P Q A S :: rat
  assumes "(1 - 1 / 2 ^ 53) * P \<le> A" and "S \<le> (1 + 1 / 2 ^ 53) * Q"
    and "P + Q < 2 ^ 52" and "0 \<le> P" and "0 \<le> Q" and "A \<le> S"
  shows "P < Q + 1"
  using assms by simp

lemma py_int_close:
  fixes C :: rat and N d :: nat
  assumes d: "0 < d" and C: "0 \<le> C"
    and up: "C * of_nat d < of_nat N + 1" and low: "of_nat N - 1 < C * of_nat d"
  shows "0 \<le> py_int C" and "py_int C * int d \<le> int N" and "int N \<le> (py_int C + 1) * int d"
proof -
  define k where "k = \<lfloor>C\<rfloor>"
  have k: "py_int C = k"
    using C by (simp add: py_int_def k_def)
  have fl: "of_int k \<le> C" "C < of_int k + 1"
    unfolding k_def by linarith+
  show "0 \<le> py_int C"
    using C by (simp add: k k_def)
  have "of_int k * of_nat d \<le> C * (of_nat d :: rat)"
    using fl(1) by (intro mult_right_mono) simp_all
  with up have "(of_int (k * int d) :: rat) < of_int (int N + 1)"
    by simp
  then have "k * int d < int N + 1"
    by (simp only: of_int_less_iff)
  then show "py_int C * int d \<le> int N"
    by (simp add: k)
  have "C * of_nat d < (of_int k + 1) * (of_nat d :: rat)"
    using fl(2) d by (intro mult_strict_right_mono) simp_all
  with low have "(of_int (int N - 1) :: rat) < of_int ((k + 1) * int d)"
    by simp
  then have "int N - 1 < (k + 1) * int d"
    by (simp only: of_int_less_iff)
  then show "int N \<le> (py_int C + 1) * int d"
    by (simp add: k)
qed

lemma aspect_compare:
  fixes w h sw sh :: nat
  assumes pos: "0 < w" "0 < h" "0 < sw" "0 < sh"
    and small: "w * sh + sw * h < 2 ^ 52"
  shows "fl (of_nat sw / of_nat sh) < fl (of_nat w / of_nat h) \<longleftrightarrow> sw * h < w * sh"
proof -
  define a where "a = fl (of_nat w / of_nat h)"
  define s where "s = fl (of_nat sw / of_nat sh)"
  define P Q :: rat where "P = of_nat (w * sh)" and "Q = of_nat (sw * h)"
  have a: "(1 - 1 / 2 ^ 53) * of_nat w \<le> a * of_nat h" "a * of_nat h \<le> (1 + 1 / 2 ^ 53) * of_nat w"
    unfolding a_def by (rule fl_ratio [OF pos(1,2)])+
  have s: "(1 - 1 / 2 ^ 53) * of_nat sw \<le> s * of_nat sh"
    "s * of_nat sh \<le> (1 + 1 / 2 ^ 53) * of_nat sw"
    unfolding s_def by (rule fl_ratio [OF pos(3,4)])+
  have aP: "(1 - 1 / 2 ^ 53) * P \<le> a * of_nat h * of_nat sh"
    "a * of_nat h * of_nat sh \<le> (1 + 1 / 2 ^ 53) * P"
    using mult_right_mono [OF a(1), of "of_nat sh"] mult_right_mono [OF a(2), of "of_nat sh"]
    by (simp_all add: P_def mult.assoc)
  have sQ: "(1 - 1 / 2 ^ 53) * Q \<le> s * of_nat h * of_nat sh"
    "s * of_nat h * of_nat sh \<le> (1 + 1 / 2 ^ 53) * Q"
    using mult_right_mono [OF s(1), of "of_nat h"] mult_right_mono [OF s(2), of "of_nat h"]
    by (simp_all add: Q_def mult.assoc mult.left_commute mult.commute)
  have PQ: "P + Q < 2 ^ 52"
  proof -
    have "(of_nat (w * sh + sw * h) :: rat) < of_nat (2 ^ 52)"
      using small by (simp only: of_nat_less_iff)
    then show ?thesis
      by (simp add: P_def Q_def)
  qed
  have nonneg: "0 \<le> P" "0 \<le> Q"
    by (simp_all add: P_def Q_def)
  have hs: "(0 :: rat) < of_nat h * of_nat sh"
    using pos by simp
  have scale: "s < a \<longleftrightarrow> s * of_nat h * of_nat sh < a * of_nat h * of_nat sh"
    using mult_less_cancel_right_pos [OF hs, of s a] by (simp add: mult.assoc)
  show ?thesis
  proof
    assume "fl (of_nat sw / of_nat sh) < fl (of_nat w / of_nat h)"
    then have lt: "s * of_nat h * of_nat sh < a * of_nat h * of_nat sh"
      using scale by (simp add: a_def s_def)
    from aP(2) sQ(1) PQ nonneg lt have "Q < P + 1"
      by (rule compare_above)
    then have "(of_nat (sw * h) :: rat) < of_nat (w * sh + 1)"
      by (simp add: P_def Q_def)
    then have "sw * h < w * sh + 1"
      by (simp only: of_nat_less_iff)
    then have le: "sw * h \<le> w * sh"
      by simp
    have "sw * h \<noteq> w * sh"
    proof
      assume "sw * h = w * sh"
      then have "(of_nat sw :: rat) * of_nat h = of_nat w * of_nat sh"
        by (simp only: of_nat_mult [symmetric])
      then have "(of_nat sw / of_nat sh :: rat) = of_nat w / of_nat h"
        using pos by (simp add: field_simps)
      then have "s = a"
        by (simp add: a_def s_def)
      with lt show False
        by simp
    qed
    with le show "sw * h < w * sh"
      by simp
  next
    assume exact: "sw * h < w * sh"
    show "fl (of_nat sw / of_nat sh) < fl (of_nat w / of_nat h)"
    proof (rule ccontr)
      assume "\<not> fl (of_nat sw / of_nat sh) < fl (of_nat w / of_nat h)"
      then have "a * of_nat h * of_nat sh \<le> s * of_nat h * of_nat sh"
        using scale by (simp add: a_def s_def not_less)
      with aP(1) sQ(2) PQ nonneg have "P < Q + 1"
        by (intro compare_below)
      then have "(of_nat (w * sh) :: rat) < of_nat (sw * h + 1)"
        by (simp add: P_def Q_def)
      then have "w * sh < sw * h + 1"
        by (simp only: of_nat_less_iff)
      then have "w * sh \<le> sw * h"
        by simp
      with exact show False
        by simp
    qed
  qed
qed

lemma wide_height:
  fixes w h sw :: nat
  assumes pos: "0 < w" "0 < h" "0 < sw"
    and small: "sw * h < 2 ^ 50" "sw < 2 ^ 53"
  defines "C \<equiv> fl (fl (of_nat sw) / fl (of_nat w / of_nat h))"
  shows "0 \<le> C" and "C * of_nat w < of_nat (sw * h) + 1" and "of_nat (sw * h) - 1 < C * of_nat w"
proof -
  define a where "a = fl (of_nat w / of_nat h)"
  define X :: rat where "X = of_nat sw / a"
  define N :: rat where "N = of_nat (sw * h)"
  have a: "(1 - 1 / 2 ^ 53) * of_nat w \<le> a * of_nat h" "a * of_nat h \<le> (1 + 1 / 2 ^ 53) * of_nat w"
    "0 < a"
    unfolding a_def by (rule fl_ratio [OF pos(1,2)])+
  have X: "0 < X" "X * a = of_nat sw"
    using a(3) pos(3) by (simp_all add: X_def)
  have C_eq: "C = fl X"
    by (simp add: C_def X_def a_def fl_of_nat [OF small(2)])
  have C: "(1 - 1 / 2 ^ 53) * X \<le> C" "C \<le> (1 + 1 / 2 ^ 53) * X" "0 < C"
    unfolding C_eq by (rule fl_bounds [OF X(1)], rule fl_bounds [OF X(1)], rule fl_pos [OF X(1)])
  have Xah: "X * (a * of_nat h) = N"
    using X(2) by (simp add: N_def mult.assoc [symmetric])
  have N: "0 \<le> N" "N < 2 ^ 50"
  proof -
    show "0 \<le> N"
      by (simp add: N_def)
    have "(of_nat (sw * h) :: rat) < of_nat (2 ^ 50)"
      using small(1) by (simp only: of_nat_less_iff)
    then show "N < 2 ^ 50"
      by (simp add: N_def)
  qed
  have ah: "0 \<le> a * of_nat h"
    using a(3) by simp
  define P where "P = C * of_nat w"
  define Y where "Y = C * (a * of_nat h)"
  have u1: "(1 - 1 / 2 ^ 53) * P \<le> Y"
    using mult_left_mono [OF a(1), of C] C(3) by (simp add: P_def Y_def algebra_simps)
  have u2: "Y \<le> (1 + 1 / 2 ^ 53) * N"
    using mult_right_mono [OF C(2) ah] by (simp add: Y_def Xah mult.assoc)
  have l1: "Y \<le> (1 + 1 / 2 ^ 53) * P"
    using mult_left_mono [OF a(2), of C] C(3) by (simp add: P_def Y_def algebra_simps)
  have l2: "(1 - 1 / 2 ^ 53) * N \<le> Y"
    using mult_right_mono [OF C(1) ah] by (simp add: Y_def Xah mult.assoc)
  have "P < N + 1" "N - 1 < P"
    by (rule close_above [OF u1 u2 N], rule close_below [OF l1 l2 N])
  then show "C * of_nat w < of_nat (sw * h) + 1" "of_nat (sw * h) - 1 < C * of_nat w"
    by (simp_all add: P_def N_def)
  show "0 \<le> C"
    using C(3) by simp
qed

lemma tall_width:
  fixes w h sh :: nat
  assumes pos: "0 < w" "0 < h" "0 < sh"
    and small: "sh * w < 2 ^ 50" "sh < 2 ^ 53"
  defines "C \<equiv> fl (fl (of_nat sh) * fl (of_nat w / of_nat h))"
  shows "0 \<le> C" and "C * of_nat h < of_nat (sh * w) + 1" and "of_nat (sh * w) - 1 < C * of_nat h"
proof -
  define a where "a = fl (of_nat w / of_nat h)"
  define X :: rat where "X = of_nat sh * a"
  define N :: rat where "N = of_nat (sh * w)"
  have a: "(1 - 1 / 2 ^ 53) * of_nat w \<le> a * of_nat h" "a * of_nat h \<le> (1 + 1 / 2 ^ 53) * of_nat w"
    "0 < a"
    unfolding a_def by (rule fl_ratio [OF pos(1,2)])+
  have X: "0 < X"
    using a(3) pos(3) by (simp add: X_def)
  have C_eq: "C = fl X"
    by (simp add: C_def X_def a_def fl_of_nat [OF small(2)])
  have C: "(1 - 1 / 2 ^ 53) * X \<le> C" "C \<le> (1 + 1 / 2 ^ 53) * X" "0 < C"
    unfolding C_eq by (rule fl_bounds [OF X(1)], rule fl_bounds [OF X(1)], rule fl_pos [OF X(1)])
  have N: "0 \<le> N" "N < 2 ^ 50"
  proof -
    show "0 \<le> N"
      by (simp add: N_def)
    have "(of_nat (sh * w) :: rat) < of_nat (2 ^ 50)"
      using small(1) by (simp only: of_nat_less_iff)
    then show "N < 2 ^ 50"
      by (simp add: N_def)
  qed
  define P where "P = C * of_nat h"
  define Y where "Y = X * of_nat h"
  have Y: "Y = of_nat sh * (a * of_nat h)"
    by (simp add: Y_def X_def mult.assoc)
  have sh: "(0 :: rat) \<le> of_nat sh" "(0 :: rat) \<le> of_nat h"
    by simp_all
  have l2: "(1 - 1 / 2 ^ 53) * N \<le> Y"
    unfolding Y using mult_left_mono [OF a(1) sh(1)] by (simp add: N_def algebra_simps)
  have u2: "Y \<le> (1 + 1 / 2 ^ 53) * N"
    unfolding Y using mult_left_mono [OF a(2) sh(1)] by (simp add: N_def algebra_simps)
  have l1: "(1 - 1 / 2 ^ 53) * Y \<le> P"
    using mult_right_mono [OF C(1) sh(2)] by (simp add: P_def Y_def mult.assoc)
  have u1: "P \<le> (1 + 1 / 2 ^ 53) * Y"
    using mult_right_mono [OF C(2) sh(2)] by (simp add: P_def Y_def mult.assoc)
  have "P < N + 1" "N - 1 < P"
    by (rule close_above2 [OF u1 u2 N], rule close_below2 [OF l1 l2 N])
  then show "C * of_nat h < of_nat (sh * w) + 1" "of_nat (sh * w) - 1 < C * of_nat h"
    by (simp_all add: P_def N_def)
  show "0 \<le> C"
    using C(3) by simp
qed


lemma product_small:
  fixes a b :: nat
  assumes "a < 2 ^ 25" and "b < 2 ^ 25"
  shows "a * b < 2 ^ 50"
proof -
  have "a * b \<le> a * 2 ^ 25"
    using assms(2) by simp
  also have "\<dots> < 2 ^ 25 * 2 ^ 25"
    using assms(1) by simp
  finally show ?thesis
    by simp
qed

lemma fit_size_props:
  fixes w h sw sh :: nat
  assumes pos: "0 < w" "0 < h" "0 < sw" "0 < sh"
    and small: "w < 2 ^ 25" "h < 2 ^ 25" "sw < 2 ^ 25" "sh < 2 ^ 25"
  shows "\<exists>nw nh. fit_size w h sw sh = (int nw, int nh) \<and> nw \<le> sw \<and> nh \<le> sh \<and>
           (if sw * h < w * sh
            then nw = sw \<and> nh * w \<le> sw * h \<and> sw * h \<le> (nh + 1) * w
            else nh = sh \<and> nw * h \<le> sh * w \<and> sh * w \<le> (nw + 1) * h)"
proof -
  have p1: "sw * h < 2 ^ 50" and p2: "sh * w < 2 ^ 50" and p3: "w * sh < 2 ^ 50"
    by (rule product_small [OF small(3) small(2)], rule product_small [OF small(4) small(1)],
        rule product_small [OF small(1) small(4)])
  then have sum: "w * sh + sw * h < 2 ^ 52"
    by simp
  have s53: "sw < 2 ^ 53" "sh < 2 ^ 53"
    using small(3,4) by simp_all
  note cmp = aspect_compare [OF pos sum]
  show ?thesis
  proof (cases "sw * h < w * sh")
    case True
    define C where "C = fl (fl (of_nat sw) / fl (of_nat w / of_nat h))"
    have size: "fit_size w h sw sh = (int sw, py_int C)"
      using True cmp by (simp add: fit_size_def Let_def C_def)
    note C = wide_height [OF pos(1,2,3) p1 s53(1), folded C_def]
    note k = py_int_close [OF pos(1) C]
    define nh where "nh = nat (py_int C)"
    have nh: "py_int C = int nh"
      using k(1) by (simp add: nh_def)
    have a: "nh * w \<le> sw * h"
      using k(2) unfolding nh by (simp only: of_nat_mult [symmetric] of_nat_le_iff)
    have "int (sw * h) \<le> int ((nh + 1) * w)"
      using k(3) unfolding nh by (simp only: of_nat_mult of_nat_add of_nat_1)
    then have b: "sw * h \<le> (nh + 1) * w"
      by (simp only: of_nat_le_iff)
    have "sw * h < sh * w"
      using True by (simp only: mult.commute [of w sh])
    with a have "nh * w < sh * w"
      by (rule le_less_trans)
    then have "nh \<le> sh"
      by simp
    with size a b True show ?thesis
      unfolding nh by (intro exI [of _ sw] exI [of _ nh]) simp
  next
    case False
    define C where "C = fl (fl (of_nat sh) * fl (of_nat w / of_nat h))"
    have size: "fit_size w h sw sh = (py_int C, int sh)"
      using False cmp by (simp add: fit_size_def Let_def C_def)
    note C = tall_width [OF pos(1,2,4) p2 s53(2), folded C_def]
    note k = py_int_close [OF pos(2) C]
    define nw where "nw = nat (py_int C)"
    have nw: "py_int C = int nw"
      using k(1) by (simp add: nw_def)
    have a: "nw * h \<le> sh * w"
      using k(2) unfolding nw by (simp only: of_nat_mult [symmetric] of_nat_le_iff)
    have "int (sh * w) \<le> int ((nw + 1) * h)"
      using k(3) unfolding nw by (simp only: of_nat_mult of_nat_add of_nat_1)
    then have b: "sh * w \<le> (nw + 1) * h"
      by (simp only: of_nat_le_iff)
    have "sh * w \<le> sw * h"
      using False by (simp only: not_less mult.commute [of w sh])
    with a have "nw * h \<le> sw * h"
      by (rule le_trans)
    then have "nw \<le> sw"
      using pos(2) by simp
    with size a b False show ?thesis
      unfolding nw by (intro exI [of _ nw] exI [of _ sh]) simp
  qed
qed

subsection \<open>Fitting to the screen\<close>

lemma width_paste: "width (paste canvas src pos) = width canvas"
  by (simp add: paste_def split: prod.splits)

lemma height_paste: "height (paste canvas src pos) = height canvas"
  by (simp add: paste_def split: prod.splits)

lemma aspect_less_iff:
  assumes "0 < h" and "0 < sh"
  shows "(of_nat sw / of_nat sh :: rat) < of_nat w / of_nat h \<longleftrightarrow> sw * h < w * sh"
proof -
  have "(of_nat sw / of_nat sh :: rat) < of_nat w / of_nat h \<longleftrightarrow>
        (of_nat (sw * h) :: rat) < of_nat (w * sh)"
    using assms by (simp add: field_simps)
  then show ?thesis by (simp only: of_nat_less_iff)
qed

lemma size_resize_nearest:
  "width (resize_nearest i (a, b)) = a \<and> height (resize_nearest i (a, b)) = b"
  by (simp add: resize_nearest_def)

lemma enhance_try_fit:
  assumes size: "\<And>i a b. width (resize i (a, b)) = a \<and> height (resize i (a, b)) = b"
    and pos: "0 < width img" "0 < height img" "0 < sw" "0 < sh"
    and small: "width img < 2 ^ 25" "height img < 2 ^ 25" "sw < 2 ^ 25" "sh < 2 ^ 25"
  shows "\<exists>nw nh.
           fit_size (width img) (height img) sw sh = (int nw, int nh) \<and> nw \<le> sw \<and> nh \<le> sh \<and>
           (if sw * height img < width img * sh
            then nw = sw \<and> nh * width img \<le> sw * height img \<and>
                 sw * height img \<le> (nh + 1) * width img
            else nh = sh \<and> nw * height img \<le> sh * width img \<and>
                 sh * width img \<le> (nw + 1) * height img) \<and>
           (if nw = 0 \<or> nh = 0 then enhance_try resize sw sh img = Inl ValueError
            else \<exists>c. best_background_for_image (resize img (nw, nh)) = Inr c \<and>
                   enhance_try resize sw sh img =
                     Inr \<lparr>new_width = int nw, new_height = int nh,
                          resized_img = resize img (nw, nh), color = c,
                          paste_x = (int sw - int nw) div 2,
                          paste_y = (int sh - int nh) div 2\<rparr>)"
proof -
  from fit_size_props [OF pos small] obtain nw nh where
    fs: "fit_size (width img) (height img) sw sh = (int nw, int nh)" and
    le: "nw \<le> sw" "nh \<le> sh" and
    shape: "if sw * height img < width img * sh
            then nw = sw \<and> nh * width img \<le> sw * height img \<and>
                 sw * height img \<le> (nh + 1) * width img
            else nh = sh \<and> nw * height img \<le> sh * width img \<and>
                 sh * width img \<le> (nw + 1) * height img"
    by (elim exE conjE)
  have outcome: "if nw = 0 \<or> nh = 0 then enhance_try resize sw sh img = Inl ValueError
      else \<exists>c. best_background_for_image (resize img (nw, nh)) = Inr c \<and>
             enhance_try resize sw sh img =
               Inr \<lparr>new_width = int nw, new_height = int nh,
                    resized_img = resize img (nw, nh), color = c,
                    paste_x = (int sw - int nw) div 2,
                    paste_y = (int sh - int nh) div 2\<rparr>"
  proof (cases "nw = 0 \<or> nh = 0")
    case True
    then have "int nw < 1 \<or> int nh < 1"
      by auto
    then have "enhance_try resize sw sh img = Inl ValueError"
      using pos by (simp add: enhance_try_def fs)
    with True show ?thesis
      by simp
  next
    case False
    define R where "R = resize img (nw, nh)"
    have R: "0 < width R" "0 < height R"
      using size [of img nw nh] False by (simp_all add: R_def)
    obtain c where c: "best_background_for_image R = Inr c"
      using best_background_eq [OF R] by blast
    have "\<not> (int nw < 1 \<or> int nh < 1)"
      using False by auto
    then have "enhance_try resize sw sh img =
        Inr \<lparr>new_width = int nw, new_height = int nh, resized_img = R, color = c,
             paste_x = (int sw - int nw) div 2, paste_y = (int sh - int nh) div 2\<rparr>"
      using pos c by (simp add: enhance_try_def fs R_def Let_def)
    with c False show ?thesis
      unfolding R_def by (simp only: if_False) blast
  qed
  from fs le shape outcome show ?thesis
    by (intro exI [of _ nw] exI [of _ nh] conjI)
qed

lemma enhance_try_ok:
  assumes size: "\<And>i a b. width (resize i (a, b)) = a \<and> height (resize i (a, b)) = b"
    and pos: "0 < width img" "0 < height img" "0 < sw" "0 < sh"
    and small: "width img < 2 ^ 25" "height img < 2 ^ 25" "sw < 2 ^ 25" "sh < 2 ^ 25"
    and fits: "width img < sw * height img" "height img < sh * width img"
  shows "\<exists>nw nh c.
           1 \<le> nw \<and> nw \<le> sw \<and> 1 \<le> nh \<and> nh \<le> sh \<and>
           (if sw * height img < width img * sh
            then nw = sw \<and> nh * width img \<le> sw * height img \<and>
                 sw * height img \<le> (nh + 1) * width img
            else nh = sh \<and> nw * height img \<le> sh * width img \<and>
                 sh * width img \<le> (nw + 1) * height img) \<and>
           best_background_for_image (resize img (nw, nh)) = Inr c \<and>
           enhance_try resize sw sh img =
             Inr \<lparr>new_width = int nw, new_height = int nh,
                  resized_img = resize img (nw, nh), color = c,
                  paste_x = (int sw - int nw) div 2,
                  paste_y = (int sh - int nh) div 2\<rparr>"
proof -
  from enhance_try_fit [where resize = resize, OF size pos small] obtain nw nh where
    le: "nw \<le> sw" "nh \<le> sh" and
    shape: "if sw * height img < width img * sh
            then nw = sw \<and> nh * width img \<le> sw * height img \<and>
                 sw * height img \<le> (nh + 1) * width img
            else nh = sh \<and> nw * height img \<le> sh * width img \<and>
                 sh * width img \<le> (nw + 1) * height img" and
    outcome: "if nw = 0 \<or> nh = 0 then enhance_try resize sw sh img = Inl ValueError
      else \<exists>c. best_background_for_image (resize img (nw, nh)) = Inr c \<and>
             enhance_try resize sw sh img =
               Inr \<lparr>new_width = int nw, new_height = int nh,
                    resized_img = resize img (nw, nh), color = c,
                    paste_x = (int sw - int nw) div 2,
                    paste_y = (int sh - int nh) div 2\<rparr>"
    by (elim exE conjE)
  have "nw \<noteq> 0"
  proof
    assume "nw = 0"
    with shape pos(3) have "sh * width img \<le> height img"
      by (auto split: if_splits)
    with fits(2) show False
      by simp
  qed
  moreover have "nh \<noteq> 0"
  proof
    assume "nh = 0"
    with shape pos(4) have "sw * height img \<le> width img"
      by (auto split: if_splits)
    with fits(1) show False
      by simp
  qed
  ultimately have nz: "1 \<le> nw" "1 \<le> nh" "\<not> (nw = 0 \<or> nh = 0)"
    by simp_all
  from outcome obtain c where
    "best_background_for_image (resize img (nw, nh)) = Inr c"
    "enhance_try resize sw sh img =
       Inr \<lparr>new_width = int nw, new_height = int nh,
            resized_img = resize img (nw, nh), color = c,
            paste_x = (int sw - int nw) div 2, paste_y = (int sh - int nh) div 2\<rparr>"
    unfolding if_not_P [OF nz(3)] by (elim exE conjE)
  with nz(1,2) le shape show ?thesis
    by (intro exI [of _ nw] exI [of _ nh] exI [of _ c] conjI)
qed

text \<open>
  Claim C4, as the code has it. Take a page and a canvas with sizes that are positive
  and below \<open>2\<^sup>2\<^sup>5\<close>, and a resampler that returns an image of the requested size.

  When \<open>width < screen_width * height\<close> and \<open>height < screen_height * width\<close>, the fit
  succeeds and the result has exactly the size of the canvas. The page is resized to
  \<open>new_width\<close> by \<open>new_height\<close>, both between 1 and the canvas dimension. When the
  page's aspect ratio exceeds the canvas's, \<open>new_width\<close> is the canvas width and the
  proportional height \<open>screen_width * height / width\<close> lies between \<open>new_height\<close> and
  \<open>new_height + 1\<close>; otherwise \<open>new_height\<close> is the canvas height and the proportional
  width lies between \<open>new_width\<close> and \<open>new_width + 1\<close>. The resized page is pasted at
  \<open>((screen_width - new_width) div 2, (screen_height - new_height) div 2)\<close>.

  When \<open>screen_width * height < width\<close> or \<open>screen_height * width < height\<close>, the scaled
  dimension truncates to zero, \<^verbatim>\<open>resize\<close> raises and the handler returns the page
  itself. On the boundary between the two cases the rounding of the doubles decides.
\<close>

theorem fit_to_canvas:
  assumes size: "\<And>i a b. width (resize i (a, b)) = a \<and> height (resize i (a, b)) = b"
    and pos: "0 < width img" "0 < height img" "0 < sw" "0 < sh"
    and small: "width img < 2 ^ 25" "height img < 2 ^ 25" "sw < 2 ^ 25" "sh < 2 ^ 25"
  shows "(width img < sw * height img \<and> height img < sh * width img \<longrightarrow>
          (\<exists>f. enhance_try resize sw sh img = Inr f \<and>
             enhance_image_for_screen resize sw sh img =
               paste (new_image sw sh (color f)) (resized_img f) (paste_x f, paste_y f) \<and>
             width (enhance_image_for_screen resize sw sh img) = sw \<and>
             height (enhance_image_for_screen resize sw sh img) = sh \<and>
             resized_img f = resize img (nat (new_width f), nat (new_height f)) \<and>
             1 \<le> new_width f \<and> new_width f \<le> int sw \<and>
             1 \<le> new_height f \<and> new_height f \<le> int sh \<and>
             (if (of_nat sw / of_nat sh :: rat) < of_nat (width img) / of_nat (height img)
              then new_width f = int sw \<and>
                   new_height f * int (width img) \<le> int (sw * height img) \<and>
                   int (sw * height img) \<le> (new_height f + 1) * int (width img)
              else new_height f = int sh \<and>
                   new_width f * int (height img) \<le> int (sh * width img) \<and>
                   int (sh * width img) \<le> (new_width f + 1) * int (height img)) \<and>
             paste_x f = (int sw - new_width f) div 2 \<and>
             paste_y f = (int sh - new_height f) div 2)) \<and>
         (sw * height img < width img \<or> sh * width img < height img \<longrightarrow>
          enhance_try resize sw sh img = Inl ValueError \<and>
          enhance_image_for_screen resize sw sh img = img)"
proof -
  define w h where "w = width img" and "h = height img"
  define wide where "wide \<longleftrightarrow> sw * h < w * sh"
  from enhance_try_fit [where resize = resize, OF size pos small] obtain nw nh where
    le: "nw \<le> sw" "nh \<le> sh" and
    shape: "if wide then nw = sw \<and> nh * w \<le> sw * h \<and> sw * h \<le> (nh + 1) * w
            else nh = sh \<and> nw * h \<le> sh * w \<and> sh * w \<le> (nw + 1) * h" and
    outcome: "if nw = 0 \<or> nh = 0 then enhance_try resize sw sh img = Inl ValueError
      else \<exists>c. best_background_for_image (resize img (nw, nh)) = Inr c \<and>
             enhance_try resize sw sh img =
               Inr \<lparr>new_width = int nw, new_height = int nh,
                    resized_img = resize img (nw, nh), color = c,
                    paste_x = (int sw - int nw) div 2,
                    paste_y = (int sh - int nh) div 2\<rparr>"
    unfolding w_def h_def wide_def by (elim exE conjE)
  have cmp: "(of_nat sw / of_nat sh :: rat) < of_nat (width img) / of_nat (height img) \<longleftrightarrow> wide"
    unfolding wide_def w_def h_def by (rule aspect_less_iff [OF pos(2) pos(4)])
  have w: "0 < w" and h: "0 < h"
    using pos by (simp_all add: w_def h_def)
  have good: "\<exists>f. enhance_try resize sw sh img = Inr f \<and>
      enhance_image_for_screen resize sw sh img =
        paste (new_image sw sh (color f)) (resized_img f) (paste_x f, paste_y f) \<and>
      width (enhance_image_for_screen resize sw sh img) = sw \<and>
      height (enhance_image_for_screen resize sw sh img) = sh \<and>
      resized_img f = resize img (nat (new_width f), nat (new_height f)) \<and>
      1 \<le> new_width f \<and> new_width f \<le> int sw \<and>
      1 \<le> new_height f \<and> new_height f \<le> int sh \<and>
      (if (of_nat sw / of_nat sh :: rat) < of_nat (width img) / of_nat (height img)
       then new_width f = int sw \<and>
            new_height f * int (width img) \<le> int (sw * height img) \<and>
            int (sw * height img) \<le> (new_height f + 1) * int (width img)
       else new_height f = int sh \<and>
            new_width f * int (height img) \<le> int (sh * width img) \<and>
            int (sh * width img) \<le> (new_width f + 1) * int (height img)) \<and>
      paste_x f = (int sw - new_width f) div 2 \<and>
      paste_y f = (int sh - new_height f) div 2"
    if fits: "w < sw * h" "h < sh * w"
  proof -
    from enhance_try_ok [where resize = resize, OF size pos small fits [unfolded w_def h_def]]
    obtain nw nh c where
      nz: "1 \<le> nw" "1 \<le> nh" and le: "nw \<le> sw" "nh \<le> sh" and
      shape: "if wide then nw = sw \<and> nh * w \<le> sw * h \<and> sw * h \<le> (nh + 1) * w
              else nh = sh \<and> nw * h \<le> sh * w \<and> sh * w \<le> (nw + 1) * h" and
      tried: "enhance_try resize sw sh img =
        Inr \<lparr>new_width = int nw, new_height = int nh,
             resized_img = resize img (nw, nh), color = c,
             paste_x = (int sw - int nw) div 2, paste_y = (int sh - int nh) div 2\<rparr>"
      unfolding w_def h_def wide_def by (elim exE conjE)
    define f where "f = \<lparr>new_width = int nw, new_height = int nh,
        resized_img = resize img (nw, nh), color = c,
        paste_x = (int sw - int nw) div 2, paste_y = (int sh - int nh) div 2\<rparr>"
    have out: "enhance_image_for_screen resize sw sh img =
        paste (new_image sw sh (color f)) (resized_img f) (paste_x f, paste_y f)"
      by (simp add: enhance_image_for_screen_def tried f_def)
    have dims: "width (enhance_image_for_screen resize sw sh img) = sw"
      "height (enhance_image_for_screen resize sw sh img) = sh"
      unfolding out by (simp_all add: width_paste height_paste new_image_def)
    have res: "resized_img f = resize img (nat (new_width f), nat (new_height f))"
      by (simp add: f_def)
    have bounds: "1 \<le> new_width f" "new_width f \<le> int sw" "1 \<le> new_height f"
      "new_height f \<le> int sh"
      using nz le by (simp_all add: f_def)
    have wide_case: "new_width f = int sw \<and>
        new_height f * int (width img) \<le> int (sw * height img) \<and>
        int (sw * height img) \<le> (new_height f + 1) * int (width img)" if wide
    proof -
      from shape that have a: "nw = sw" and b: "nh * w \<le> sw * h" and c: "sw * h \<le> (nh + 1) * w"
        by simp_all
      from b have "int (nh * w) \<le> int (sw * h)"
        by (simp only: of_nat_le_iff)
      moreover from c have "int (sw * h) \<le> int ((nh + 1) * w)"
        by (simp only: of_nat_le_iff)
      ultimately show ?thesis
        using a by (simp add: f_def w_def h_def distrib_right)
    qed
    have tall_case: "new_height f = int sh \<and>
        new_width f * int (height img) \<le> int (sh * width img) \<and>
        int (sh * width img) \<le> (new_width f + 1) * int (height img)" if "\<not> wide"
    proof -
      from shape that have a: "nh = sh" and b: "nw * h \<le> sh * w" and c: "sh * w \<le> (nw + 1) * h"
        by simp_all
      from b have "int (nw * h) \<le> int (sh * w)"
        by (simp only: of_nat_le_iff)
      moreover from c have "int (sh * w) \<le> int ((nw + 1) * h)"
        by (simp only: of_nat_le_iff)
      ultimately show ?thesis
        using a by (simp add: f_def w_def h_def distrib_right)
    qed
    have px: "paste_x f = (int sw - new_width f) div 2"
      "paste_y f = (int sh - new_height f) div 2"
      by (simp_all add: f_def)
    have "enhance_try resize sw sh img = Inr f"
      by (simp add: tried f_def)
    then show ?thesis
      using out dims res bounds cmp wide_case tall_case px
      by (intro exI [of _ f]) simp
  qed
  have bad: "enhance_try resize sw sh img = Inl ValueError \<and>
      enhance_image_for_screen resize sw sh img = img"
    if thin: "sw * h < w \<or> sh * w < h"
  proof -
    have "nw = 0 \<or> nh = 0"
      using thin
    proof
      assume a: "sw * h < w"
      have "w \<le> w * sh"
        using pos(4) by simp
      with a have "sw * h < w * sh"
        by (rule less_le_trans)
      then have wide
        by (simp add: wide_def)
      with shape have "nh * w \<le> sw * h"
        by simp
      from this a have "nh * w < w"
        by (rule le_less_trans)
      then have "nh = 0"
        by (cases nh) simp_all
      then show ?thesis ..
    next
      assume a: "sh * w < h"
      have "h \<le> sw * h"
        using pos(3) by simp
      with a have "sh * w < sw * h"
        by (rule less_le_trans)
      then have "\<not> wide"
        by (simp add: wide_def mult.commute)
      with shape have "nw * h \<le> sh * w"
        by simp
      from this a have "nw * h < h"
        by (rule le_less_trans)
      then have "nw = 0"
        by (cases nw) simp_all
      then show ?thesis ..
    qed
    with outcome have "enhance_try resize sw sh img = Inl ValueError"
      by simp
    then show ?thesis
      by (simp add: enhance_image_for_screen_def)
  qed
  from good bad show ?thesis
    unfolding w_def h_def by blast
qed


theorem fit_to_canvas_witness:
  "\<exists>f. enhance_try resize_nearest 3 4 wide_colour_page = Inr f \<and>
       width (enhance_image_for_screen resize_nearest 3 4 wide_colour_page) = 3 \<and>
       height (enhance_image_for_screen resize_nearest 3 4 wide_colour_page) = 4 \<and>
       new_width f = 3 \<and> new_height f = 1 \<and> paste_x f = 0 \<and> paste_y f = 1"
proof -
  have hyps: "0 < width wide_colour_page" "0 < height wide_colour_page" "0 < (3 :: nat)"
    "0 < (4 :: nat)" "width wide_colour_page < 2 ^ 25" "height wide_colour_page < 2 ^ 25"
    "(3 :: nat) < 2 ^ 25" "(4 :: nat) < 2 ^ 25"
    by (simp_all add: wide_colour_page_def)
  have fits: "width wide_colour_page < 3 * height wide_colour_page \<and>
      height wide_colour_page < 4 * width wide_colour_page"
    by (simp add: wide_colour_page_def)
  from fit_to_canvas [of resize_nearest wide_colour_page 3 4, OF size_resize_nearest hyps] fits
  obtain f where f: "enhance_try resize_nearest 3 4 wide_colour_page = Inr f"
    "width (enhance_image_for_screen resize_nearest 3 4 wide_colour_page) = 3"
    "height (enhance_image_for_screen resize_nearest 3 4 wide_colour_page) = 4"
    "1 \<le> new_height f"
    "new_width f = 3" "new_height f * 4 \<le> 6"
    "paste_x f = (3 - new_width f) div 2" "paste_y f = (4 - new_height f) div 2"
    by (auto simp: wide_colour_page_def)
  from f(4,6) have "new_height f = 1"
    by arith
  with f show ?thesis
    by (intro exI [of _ f]) simp
qed

text \<open>
  A page of one column and 1281 rows on a canvas of 800 by 1280: the scaled width
  \<^verbatim>\<open>int(1280 * (1 / 1281))\<close> is 0, and the page comes back as it is.
\<close>

theorem thin_page_not_fitted_counterexample:
  "0 < width thin_page \<and> 0 < height thin_page \<and>
   fit_size (width thin_page) (height thin_page) 800 1280 = (0, 1280) \<and>
   enhance_try resize_nearest 800 1280 thin_page = Inl ValueError \<and>
   enhance_image_for_screen resize_nearest 800 1280 thin_page = thin_page \<and>
   width (enhance_image_for_screen resize_nearest 800 1280 thin_page) \<noteq> 800 \<and>
   height (enhance_image_for_screen resize_nearest 800 1280 thin_page) \<noteq> 1280"
proof -
  have "fit_size 1 1281 800 1280 = (0, 1280)"
  proof -
    from fit_size_props [of 1 1281 800 1280] obtain nw nh where
      size: "fit_size 1 1281 800 1280 = (int nw, int nh)" and
      shape: "nh = 1280 \<and> nw * 1281 \<le> 1280"
      by auto
    from shape have "nw = 0"
      by simp
    with size shape show ?thesis
      by simp
  qed
  then have size: "fit_size (width thin_page) (height thin_page) 800 1280 = (0, 1280)"
    by (simp add: thin_page_def)
  then have "enhance_try resize_nearest 800 1280 thin_page = Inl ValueError"
    by (simp add: enhance_try_def thin_page_def)
  with size show ?thesis
    by (simp add: enhance_image_for_screen_def thin_page_def)
qed

subsection \<open>Fitting the fitted image\<close>

lemma rgb2l_gray: "rgb2l (v, v, v) = v"
proof -
  have "unat v * 19595 + unat v * 38470 + unat v * 7471 + 32768 = unat v * 65536 + 32768"
    by simp
  then have "(unat v * 19595 + unat v * 38470 + unat v * 7471 + 32768) div 65536 = unat v"
    by simp
  then show ?thesis
    by (simp add: rgb2l_def)
qed

lemma rgb2l_rgb_at: "rgb2l (rgb_at img x y) = gray_at img x y"
  by (cases "pixels img") (simp_all add: rgb_at_def gray_at_def rgb2l_gray Let_def)

lemma rgb_at_new_image: "x < w \<Longrightarrow> y < h \<Longrightarrow> rgb_at (new_image w h c) x y = c"
  by (simp add: rgb_at_def new_image_def pixel_at_grid)

lemma gray_at_paste:
  assumes "x < width canvas" and "y < height canvas"
  shows "gray_at (paste canvas src (int p, int q)) x y =
         (if (p \<le> x \<and> x < p + width src) \<and> (q \<le> y \<and> y < q + height src)
          then gray_at src (x - p) (y - q) else rgb2l (rgb_at canvas x y))"
proof -
  have "nat (int x - int p) = x - p" "nat (int y - int q) = y - q"
    by simp_all
  moreover have "int p \<le> int x \<and> int x < int p + int (width src) \<and>
      int q \<le> int y \<and> int y < int q + int (height src) \<longleftrightarrow>
      (p \<le> x \<and> x < p + width src) \<and> (q \<le> y \<and> y < q + height src)"
    by auto
  ultimately show ?thesis
    using assms by (simp add: paste_def gray_at_def pixel_at_grid rgb2l_rgb_at [unfolded gray_at_def])
qed

lemma sum_window:
  fixes g :: "nat \<Rightarrow> nat"
  assumes "p + n \<le> W"
  shows "(\<Sum>x = 0..<W. if p \<le> x \<and> x < p + n then g (x - p) else b) =
         (\<Sum>x = 0..<n. g x) + b * (W - n)"
proof -
  let ?F = "\<lambda>x. if p \<le> x \<and> x < p + n then g (x - p) else b"
  have "sum ?F {0..<p} + sum ?F {p..<p + n} = sum ?F {0..<p + n}"
    by (rule sum.atLeastLessThan_concat) simp_all
  moreover have "sum ?F {0..<p + n} + sum ?F {p + n..<W} = sum ?F {0..<W}"
    by (rule sum.atLeastLessThan_concat) (simp_all add: assms)
  ultimately have split: "sum ?F {0..<W} =
      sum ?F {0..<p} + sum ?F {p..<p + n} + sum ?F {p + n..<W}"
    by simp
  have left: "sum ?F {0..<p} = b * p"
    by simp
  have right: "sum ?F {p + n..<W} = b * (W - (p + n))"
    by simp
  have mid: "sum ?F {p..<p + n} = sum g {0..<n}"
  proof -
    have "sum ?F {p..<p + n} = sum ?F {0 + p..<n + p}"
      by (simp add: add.commute)
    also have "\<dots> = (\<Sum>x = 0..<n. ?F (x + p))"
      by (rule sum.shift_bounds_nat_ivl)
    also have "\<dots> = sum g {0..<n}"
      by (rule sum.cong) simp_all
    finally show ?thesis .
  qed
  have "b * p + b * (W - (p + n)) = b * (W - n)"
  proof -
    have "p + (W - (p + n)) = W - n"
      using assms by arith
    then have "b * (p + (W - (p + n))) = b * (W - n)"
      by (rule arg_cong)
    then show ?thesis
      by (simp only: distrib_left)
  qed
  then show ?thesis
    unfolding split left right mid by linarith
qed

lemma gray_sum_sum:
  "gray_sum img = (\<Sum>y = 0..<height img. \<Sum>x = 0..<width img. unat (gray_at img x y))"
  by (simp add: gray_sum_def interv_sum_list_conv_sum_set_nat)

lemma gray_sum_paste:
  assumes "p + width src \<le> W" and "q + height src \<le> H"
  shows "gray_sum (paste (new_image W H c) src (int p, int q)) =
         gray_sum src + unat (rgb2l c) * (height src * (W - width src) + W * (H - height src))"
proof -
  define b where "b = unat (rgb2l c)"
  define out where "out = paste (new_image W H c) src (int p, int q)"
  define r where "r y = (\<Sum>x = 0..<width src. unat (gray_at src x y)) + b * (W - width src)" for y
  have dims: "width out = W" "height out = H"
    by (simp_all add: out_def width_paste height_paste new_image_def)
  have px: "unat (gray_at out x y) =
      (if q \<le> y \<and> y < q + height src
       then (if p \<le> x \<and> x < p + width src then unat (gray_at src (x - p) (y - q)) else b)
       else b)" if "x < W" "y < H" for x y
    using that unfolding out_def b_def
    by (simp add: gray_at_paste new_image_def rgb_at_new_image [unfolded new_image_def])
  have row: "(\<Sum>x = 0..<W. unat (gray_at out x y)) =
      (if q \<le> y \<and> y < q + height src then r (y - q) else b * W)" if "y < H" for y
  proof -
    have "(\<Sum>x = 0..<W. unat (gray_at out x y)) =
        (\<Sum>x = 0..<W. if q \<le> y \<and> y < q + height src
           then (if p \<le> x \<and> x < p + width src then unat (gray_at src (x - p) (y - q)) else b)
           else b)"
      by (rule sum.cong) (simp_all add: px that)
    also have "\<dots> = (if q \<le> y \<and> y < q + height src then r (y - q) else b * W)"
    proof (cases "q \<le> y \<and> y < q + height src")
      case True
      then show ?thesis
        unfolding r_def if_P [OF True]
        by (simp only: sum_window [OF assms(1), of "\<lambda>x. unat (gray_at src x (y - q))" b])
    next
      case False
      then show ?thesis
        unfolding if_not_P [OF False] by simp
    qed
    finally show ?thesis .
  qed
  have "gray_sum out = (\<Sum>y = 0..<H. \<Sum>x = 0..<W. unat (gray_at out x y))"
    by (simp add: gray_sum_sum dims)
  also have "\<dots> = (\<Sum>y = 0..<H. if q \<le> y \<and> y < q + height src then r (y - q) else b * W)"
    by (rule sum.cong) (simp_all add: row)
  also have "\<dots> = (\<Sum>y = 0..<height src. r y) + b * W * (H - height src)"
    by (rule sum_window [OF assms(2)])
  also have "(\<Sum>y = 0..<height src. r y) = gray_sum src + height src * (b * (W - width src))"
    by (simp add: r_def gray_sum_sum sum.distrib)
  finally show ?thesis
    unfolding out_def b_def by (simp add: algebra_simps)
qed

lemma background_of_pasted:
  assumes R: "0 < width R" "0 < height R"
    and fit: "p + width R \<le> W" "q + height R \<le> H"
    and c: "best_background_for_image R = Inr c"
  shows "best_background_for_image (paste (new_image W H c) R (int p, int q)) = Inr c"
proof -
  define out where "out = paste (new_image W H c) R (int p, int q)"
  define A where "A = width R * height R"
  define E where "E = height R * (W - width R) + W * (H - height R)"
  have dims: "width out = W" "height out = H"
    by (simp_all add: out_def width_paste height_paste new_image_def)
  have pos: "0 < width out" "0 < height out"
    using R fit by (simp_all add: dims)
  have area: "W * H = E + A"
  proof -
    have "(W - width R) + width R = W" "(H - height R) + height R = H"
      using fit by arith+
    then have "height R * ((W - width R) + width R) = height R * W"
      "W * ((H - height R) + height R) = W * H"
      by simp_all
    then have "height R * (W - width R) + height R * width R = height R * W"
      "W * (H - height R) + W * height R = W * H"
      by (simp_all only: distrib_left)
    moreover have "height R * width R = A" "W * height R = height R * W"
      by (simp_all add: A_def mult.commute)
    ultimately show ?thesis
      unfolding E_def by linarith
  qed
  have c_eq: "c = (if 2 * gray_sum R < 255 * A then BLACK else WHITE)"
    using best_background_eq [OF R] c by (simp add: A_def)
  have gs: "gray_sum out = gray_sum R + unat (rgb2l c) * E"
    unfolding out_def E_def by (rule gray_sum_paste [OF fit])
  have "(2 * gray_sum out < 255 * (W * H)) = (2 * gray_sum R < 255 * A)"
  proof (cases "2 * gray_sum R < 255 * A")
    case True
    then have "c = BLACK"
      by (simp add: c_eq)
    then have "gray_sum out = gray_sum R"
      by (simp add: gs BLACK_def rgb2l_black)
    with True show ?thesis
      unfolding area by simp
  next
    case False
    then have "c = WHITE"
      by (simp add: c_eq)
    then have "gray_sum out = gray_sum R + 255 * E"
      by (simp add: gs WHITE_def rgb2l_white)
    with False show ?thesis
      unfolding area by simp
  qed
  then have "best_background_for_image out = Inr c"
    using best_background_eq [OF pos] by (simp add: dims c_eq)
  then show ?thesis
    by (simp only: out_def)
qed

lemma resize_nearest_paste:
  assumes "W = width canvas" "H = height canvas"
  shows "resize_nearest (paste canvas src pos) (W, H) = paste canvas src pos"
proof -
  obtain px py where pos: "pos = (px, py)"
    by (cases pos)
  show ?thesis
    unfolding pos assms paste_def resize_nearest_def prod.case
    by (simp add: pixel_at_grid cong: grid_cong)
qed

lemma fit_size_square: "fit_size 4 4 4 4 = (4, 4)"
proof -
  have "fl 1 = 1" "fl 4 = 4"
    using fl_of_nat [of 1] fl_of_nat [of 4] by simp_all
  then show ?thesis
    by (simp add: fit_size_def py_int_def)
qed

text \<open>
  Claim C7, as the code has it. Let the fit of a page succeed (sizes positive and below
  \<open>2\<^sup>2\<^sup>5\<close>, \<open>width < screen_width * height\<close> and \<open>height < screen_height * width\<close>), on
  a canvas whose own size comes back from the arithmetic of the fit, so that fitting
  the output asks \<^verbatim>\<open>resize\<close> for the size the output has, where PIL returns a copy of
  it. Then fitting the output chooses the colour that the first fit chose from the mean
  intensity of the resized page: on a black canvas the mean of the output stays below
  the threshold, on a white canvas it stays at or above it.
\<close>

theorem background_idempotent:
  assumes size: "\<And>i a b. width (resize i (a, b)) = a \<and> height (resize i (a, b)) = b"
    and pos: "0 < width img" "0 < height img" "0 < sw" "0 < sh"
    and small: "width img < 2 ^ 25" "height img < 2 ^ 25" "sw < 2 ^ 25" "sh < 2 ^ 25"
    and fits: "width img < sw * height img" "height img < sh * width img"
    and round_trip: "fit_size sw sh sw sh = (int sw, int sh)"
    and same: "resize (enhance_image_for_screen resize sw sh img) (sw, sh) =
               enhance_image_for_screen resize sw sh img"
  shows "\<exists>f f'. enhance_try resize sw sh img = Inr f \<and>
           enhance_try resize sw sh (enhance_image_for_screen resize sw sh img) = Inr f' \<and>
           best_background_for_image (resized_img f) = Inr (color f) \<and>
           color f' = color f"
proof -
  from enhance_try_ok [where resize = resize, OF size pos small fits] obtain nw nh c where
    nw: "1 \<le> nw" "nw \<le> sw" and nh: "1 \<le> nh" "nh \<le> sh" and
    c: "best_background_for_image (resize img (nw, nh)) = Inr c" and
    tried: "enhance_try resize sw sh img =
      Inr \<lparr>new_width = int nw, new_height = int nh,
           resized_img = resize img (nw, nh), color = c,
           paste_x = (int sw - int nw) div 2, paste_y = (int sh - int nh) div 2\<rparr>"
    by (elim exE conjE)
  define R where "R = resize img (nw, nh)"
  define p q where "p = (sw - nw) div 2" and "q = (sh - nh) div 2"
  define out where "out = enhance_image_for_screen resize sw sh img"
  have R: "width R = nw" "height R = nh"
    using size [of img nw nh] by (simp_all add: R_def)
  have pq: "(int sw - int nw) div 2 = int p" "(int sh - int nh) div 2 = int q"
    using nw nh by (simp_all add: p_def q_def of_nat_diff zdiv_int)
  have out: "out = paste (new_image sw sh c) R (int p, int q)"
    by (simp add: out_def enhance_image_for_screen_def tried pq R_def)
  have dims: "width out = sw" "height out = sh"
    by (simp_all add: out width_paste height_paste new_image_def)
  have "p + width R \<le> sw" "q + height R \<le> sh"
    using nw nh by (simp_all add: p_def q_def R)
  moreover have "0 < width R" "0 < height R"
    using nw nh by (simp_all add: R)
  ultimately have bg: "best_background_for_image out = Inr c"
    unfolding out using c [folded R_def] by (intro background_of_pasted)
  have again: "resize out (sw, sh) = out"
    using same by (simp add: out_def)
  have "enhance_try resize sw sh out =
      Inr \<lparr>new_width = int sw, new_height = int sh, resized_img = out, color = c,
           paste_x = (int sw - int sw) div 2, paste_y = (int sh - int sh) div 2\<rparr>"
    using pos(3,4) by (simp add: enhance_try_def dims round_trip again bg)
  with tried c show ?thesis
    unfolding out_def by simp
qed

theorem background_idempotent_witness:
  "\<exists>f f'. enhance_try resize_nearest 4 4 wide_colour_page = Inr f \<and>
     enhance_try resize_nearest 4 4
       (enhance_image_for_screen resize_nearest 4 4 wide_colour_page) = Inr f' \<and>
     best_background_for_image (resized_img f) = Inr (color f) \<and>
     color f' = color f"
proof -
  have hyps: "0 < width wide_colour_page" "0 < height wide_colour_page" "0 < (4 :: nat)"
    "0 < (4 :: nat)" "width wide_colour_page < 2 ^ 25" "height wide_colour_page < 2 ^ 25"
    "(4 :: nat) < 2 ^ 25" "(4 :: nat) < 2 ^ 25"
    "width wide_colour_page < 4 * height wide_colour_page"
    "height wide_colour_page < 4 * width wide_colour_page"
    by (simp_all add: wide_colour_page_def)
  from enhance_try_ok [where resize = resize_nearest, OF size_resize_nearest hyps]
  obtain f where "enhance_try resize_nearest 4 4 wide_colour_page = Inr f"
    by blast
  then have same:
    "resize_nearest (enhance_image_for_screen resize_nearest 4 4 wide_colour_page) (4, 4) =
      enhance_image_for_screen resize_nearest 4 4 wide_colour_page"
    by (simp add: enhance_image_for_screen_def resize_nearest_paste new_image_def)
  have round_trip: "fit_size 4 4 4 4 = (int 4, int 4)"
    by (simp add: fit_size_square)
  show ?thesis
    by (rule background_idempotent [of resize_nearest wide_colour_page 4 4,
          OF size_resize_nearest hyps round_trip same])
qed

text \<open>
  A page of one row and 1700 columns on a canvas of 800 by 1280: the scaled height
  \<^verbatim>\<open>int(800 / 1700.0)\<close> is 0, the page comes back as it is, fitting it again fails
  the same way, and no background colour is chosen by either fit.
\<close>

theorem sliver_page_refit_counterexample:
  "0 < width sliver_page \<and> 0 < height sliver_page \<and>
   fit_size (width sliver_page) (height sliver_page) 800 1280 = (800, 0) \<and>
   enhance_try resize_nearest 800 1280 sliver_page = Inl ValueError \<and>
   enhance_image_for_screen resize_nearest 800 1280 sliver_page = sliver_page \<and>
   enhance_try resize_nearest 800 1280
     (enhance_image_for_screen resize_nearest 800 1280 sliver_page) = Inl ValueError \<and>
   width (enhance_image_for_screen resize_nearest 800 1280 sliver_page) \<noteq> 800"
proof -
  have "fit_size 1700 1 800 1280 = (800, 0)"
  proof -
    from fit_size_props [of 1700 1 800 1280] obtain nw nh where
      size: "fit_size 1700 1 800 1280 = (int nw, int nh)" and
      shape: "nw = 800 \<and> nh * 1700 \<le> 800"
      by auto
    from shape have "nh = 0"
      by simp
    with size shape show ?thesis
      by simp
  qed
  then have size: "fit_size (width sliver_page) (height sliver_page) 800 1280 = (800, 0)"
    by (simp add: sliver_page_def)
  then have tried: "enhance_try resize_nearest 800 1280 sliver_page = Inl ValueError"
    by (simp add: enhance_try_def sliver_page_def)
  then have "enhance_image_for_screen resize_nearest 800 1280 sliver_page = sliver_page"
    by (simp add: enhance_image_for_screen_def)
  with size tried show ?thesis
    by (simp add: sliver_page_def)
qed

end
